theory Spec2Isabelle
  imports Main "HOL-Library.Word" "HOL-Library.List_Lexorder"
begin

unbundle bit_operations_syntax

section \<open>Vennex: histograms of k-mers in the Venn diagram of k-mer tables\<close>

text \<open>
  The program of \<^verbatim>\<open>src/Vennex.c\<close>: it walks N sorted k-mer tables in parallel and
  records, for every distinct k-mer, which of the tables hold it.

  Conventions of the embedding.
  \<^item> \<^verbatim>\<open>uint8\<close>, \<^verbatim>\<open>uint16\<close> and \<^verbatim>\<open>int64\<close> are words of that width; a C \<^verbatim>\<open>int\<close> that
    cannot overflow on the path modelled is an \<open>int\<close>.
  \<^item> A pointer to a table entry is \<open>Some\<close> of the entry it points to, \<^verbatim>\<open>NULL\<close> is \<open>None\<close>.
  \<^item> A pointer into the histogram memory is an address: the number of 64-bit cells
    between the cell it points to and the first cell of the block \<^verbatim>\<open>hist\<close> that
    \<^verbatim>\<open>main\<close> allocates (negative before the block).
  \<^item> A function of the model returns \<open>None\<close> where the C program reads or writes
    outside an array, dereferences \<^verbatim>\<open>NULL\<close>, shifts out of the range of \<^verbatim>\<open>int\<close> or
    advances a stream that is already at its end.
\<close>

subsection \<open>Entries and stream cursors\<close>

type_synonym uint8 = "8 word"
type_synonym uint16 = "16 word"
type_synonym int64 = "64 word"

text \<open>An entry of a table: the \<^verbatim>\<open>kbyte\<close> bytes of the packed k-mer, then its 16-bit count.\<close>

type_synonym entry = "uint8 list \<times> uint16"

text \<open>
  Modelled from the spec: the stream cursor of \<^verbatim>\<open>libfastk.h\<close> (\<^verbatim>\<open>Kmer_Stream\<close>,
  \<^verbatim>\<open>First_Kmer_Entry\<close>, \<^verbatim>\<open>Next_Kmer_Entry\<close>), which the sources only call. The spec
  describes a stream as a finite sequence of entries with "a cursor that advances one Entry
  at a time or reports exhaustion". \<open>cidx\<close> is the position of the cursor, so it counts
  the entries that were passed; \<^verbatim>\<open>kmer\<close> and \<^verbatim>\<open>kbyte\<close> are the fields the sources read.
\<close>

record Kmer_Stream =
  kmer :: int
  kbyte :: int
  table :: "entry list"
  cidx :: nat

definition current :: "Kmer_Stream \<Rightarrow> entry option" where
  "current S = (if cidx S < length (table S) then Some (table S ! cidx S) else None)"

definition First_Kmer_Entry :: "Kmer_Stream \<Rightarrow> Kmer_Stream \<times> entry option" where
  "First_Kmer_Entry S = (let S' = S\<lparr>cidx := 0\<rparr> in (S', current S'))"

definition Next_Kmer_Entry :: "Kmer_Stream \<Rightarrow> (Kmer_Stream \<times> entry option) option" where
  "Next_Kmer_Entry S =
     (if cidx S < length (table S)
      then (let S' = S\<lparr>cidx := cidx S + 1\<rparr> in Some (S', current S'))
      else None)"

text \<open>\<^verbatim>\<open>#define COUNT_OF(p) (*((uint16 *) (p+kbyte)))\<close>, read into an \<^verbatim>\<open>int\<close>.\<close>

definition COUNT_OF :: "entry \<Rightarrow> int" where
  "COUNT_OF p = uint (snd p)"

subsection \<open>The key comparator\<close>

text \<open>
  \<^verbatim>\<open>mycmp(a,b,n)\<close>, lines 33-39. The lists are the bytes from the pointer to the end of
  the key; reading past the end is \<open>None\<close>.
\<close>

function mycmp :: "uint8 list \<Rightarrow> uint8 list \<Rightarrow> int \<Rightarrow> int option" where
  "mycmp a b n =
     (if n > 0 then
        (case a of
           [] \<Rightarrow> None
         | x # a' \<Rightarrow>
            (case b of
               [] \<Rightarrow> None
             | y # b' \<Rightarrow>
                 if x \<noteq> y then Some (if x < y then - 1 else 1)
                 else mycmp a' b' (n - 1)))
      else Some 0)"
  by pat_completeness auto
termination
  by (relation "measure (\<lambda>(a, b, n). nat n)") auto

declare mycmp.simps [simp del]

subsection \<open>Advancing a stream through a pointer to it\<close>

text \<open>
  The engines hold the streams by pointer (\<^verbatim>\<open>T\<close>, \<^verbatim>\<open>U\<close>, \<^verbatim>\<open>T[x]\<close>), and two pointers can
  name one stream (\<^verbatim>\<open>T = U\<close> at line 70). The stream objects are therefore kept in a
  list and a pointer to a stream is its index in that list. \<open>Next_at Ts x\<close> is
  \<^verbatim>\<open>Next_Kmer_Entry\<close> through the pointer \<open>x\<close>: the updated objects and the returned entry
  pointer.
\<close>

definition Next_at :: "Kmer_Stream list \<Rightarrow> nat \<Rightarrow> (Kmer_Stream list \<times> entry option) option" where
  "Next_at Ts x =
     (if x < length Ts then
        (case Next_Kmer_Entry (Ts ! x) of
           None \<Rightarrow> None
         | Some (S', p) \<Rightarrow> Some (Ts[x := S'], p))
      else None)"

text \<open>The number of entries the cursors have not passed yet; it bounds every loop.\<close>

definition remaining :: "Kmer_Stream list \<Rightarrow> nat" where
  "remaining Ts = sum_list (map (\<lambda>S. length (table S) - cidx S) Ts)"

lemma sum_list_update_less:
  "x < length xs \<Longrightarrow> f y < (f (xs ! x) :: nat) \<Longrightarrow>
   sum_list (map f (xs[x := y])) < sum_list (map f xs)"
proof (induction xs arbitrary: x)
  case Nil
  then show ?case by simp
next
  case (Cons a xs)
  then show ?case by (cases x) auto
qed

lemma Next_at_remaining:
  "Next_at Ts x = Some (Ts', p) \<Longrightarrow> remaining Ts' < remaining Ts"
  unfolding Next_at_def Next_Kmer_Entry_def remaining_def
  by (auto simp: Let_def split: if_splits intro!: sum_list_update_less)

subsection \<open>The histogram memory and the 2-way merge\<close>

text \<open>
  \<open>store\<close> is the memory of 64-bit counters, by address. \<^verbatim>\<open>h[k] += 1\<close> for a histogram
  pointer \<open>h\<close> adds one to the cell at address \<open>h + k\<close>.
\<close>

type_synonym addr = int
type_synonym store = "addr \<Rightarrow> int64"

text \<open>
  The variables of \<^verbatim>\<open>Venn2\<close> (lines 49-115). \<open>Tv\<close> holds the stream objects that
  \<^verbatim>\<open>Tv[0]\<close> and \<^verbatim>\<open>Tv[1]\<close> point to; \<open>curT\<close> and \<open>curU\<close> are the pointers \<^verbatim>\<open>T\<close> and
  \<^verbatim>\<open>U\<close>; \<open>Inter_hist\<close> is \<^verbatim>\<open>Inter\<close>; \<open>mem\<close> is the counter memory. The globals
  \<^verbatim>\<open>HIST_LOW\<close> and \<^verbatim>\<open>HIST_HGH\<close> are parameters.
\<close>

record venn2_vars =
  Tv :: "Kmer_Stream list"
  curT :: nat
  curU :: nat
  AminB :: addr
  BminA :: addr
  Inter_hist :: addr
  iptr :: "entry option"
  jptr :: "entry option"
  mem :: store

text \<open>
  Lines 77-96 of one pass through the compare loop: the histogram \<^verbatim>\<open>h\<close> and the count
  \<^verbatim>\<open>c\<close> selected, and the variables after the cursors moved.
\<close>

definition Venn2_select :: "int \<Rightarrow> venn2_vars \<Rightarrow> (addr \<times> int \<times> venn2_vars) option" where
  "Venn2_select kb s =
     (case iptr s of None \<Rightarrow> None | Some ip \<Rightarrow>
      case jptr s of None \<Rightarrow> None | Some jp \<Rightarrow>
      case mycmp (fst ip) (fst jp) kb of None \<Rightarrow> None | Some v \<Rightarrow>
        if v = 0 then
          (let c = COUNT_OF ip; d = COUNT_OF jp; c = (if c > d then d else c) in
           case Next_at (Tv s) (curT s) of None \<Rightarrow> None | Some (Tv1, ip') \<Rightarrow>
           case Next_at Tv1 (curU s) of None \<Rightarrow> None | Some (Tv2, jp') \<Rightarrow>
             Some (Inter_hist s, c, s\<lparr>Tv := Tv2, iptr := ip', jptr := jp'\<rparr>))
        else if v < 0 then
          (case Next_at (Tv s) (curT s) of None \<Rightarrow> None | Some (Tv1, ip') \<Rightarrow>
             Some (AminB s, COUNT_OF ip, s\<lparr>Tv := Tv1, iptr := ip'\<rparr>))
        else
          (case Next_at (Tv s) (curU s) of None \<Rightarrow> None | Some (Tv1, jp') \<Rightarrow>
             Some (BminA s, COUNT_OF jp, s\<lparr>Tv := Tv1, jptr := jp'\<rparr>)))"

text \<open>One pass through the compare loop, lines 77-102: the selection, then the update.\<close>

definition Venn2_body :: "int \<Rightarrow> int \<Rightarrow> int \<Rightarrow> venn2_vars \<Rightarrow> venn2_vars option" where
  "Venn2_body HIST_LOW HIST_HGH kb s =
     (case Venn2_select kb s of
        None \<Rightarrow> None
      | Some (h, c, s') \<Rightarrow>
          Some (if c \<le> HIST_LOW
                  then s'\<lparr>mem := (mem s')(h + HIST_LOW := mem s' (h + HIST_LOW) + 1)\<rparr>
                else if c \<ge> HIST_HGH
                  then s'\<lparr>mem := (mem s')(h + HIST_HGH := mem s' (h + HIST_HGH) + 1)\<rparr>
                else s'\<lparr>mem := (mem s')(h + c := mem s' (h + c) + 1)\<rparr>))"

lemma Venn2_select_remaining:
  "Venn2_select kb s = Some (h, c, s') \<Longrightarrow> remaining (Tv s') < remaining (Tv s)"
  by (auto simp: Venn2_select_def Let_def split: option.splits if_splits
           dest!: Next_at_remaining)

lemma Venn2_body_remaining:
  "Venn2_body LOW HGH kb s = Some s' \<Longrightarrow> remaining (Tv s') < remaining (Tv s)"
  by (auto simp: Venn2_body_def split: option.splits if_splits dest!: Venn2_select_remaining)

text \<open>The compare loop \<^verbatim>\<open>while (1)\<close>, lines 68-103, with its two exits.\<close>

function Venn2_loop :: "int \<Rightarrow> int \<Rightarrow> int \<Rightarrow> venn2_vars \<Rightarrow> venn2_vars option" where
  "Venn2_loop HIST_LOW HIST_HGH kb s =
     (if iptr s = None then Some (s\<lparr>curT := curU s, iptr := jptr s, AminB := BminA s\<rparr>)
      else if jptr s = None then Some s
      else (case Venn2_body HIST_LOW HIST_HGH kb s of
              None \<Rightarrow> None
            | Some s' \<Rightarrow> Venn2_loop HIST_LOW HIST_HGH kb s'))"
  by pat_completeness auto
termination
  by (relation "measure (\<lambda>(l, h, kb, s). remaining (Tv s))")
     (auto dest: Venn2_body_remaining)

declare Venn2_loop.simps [simp del]

text \<open>One pass through the drain loop, lines 106-113.\<close>

definition drain_body :: "int \<Rightarrow> int \<Rightarrow> venn2_vars \<Rightarrow> venn2_vars option" where
  "drain_body HIST_LOW HIST_HGH s =
     (case iptr s of None \<Rightarrow> None | Some ip \<Rightarrow>
      let c = COUNT_OF ip in
      case Next_at (Tv s) (curT s) of None \<Rightarrow> None | Some (Tv1, ip') \<Rightarrow>
      let s' = s\<lparr>Tv := Tv1, iptr := ip'\<rparr> in
        Some (if c \<le> HIST_LOW
                then s'\<lparr>mem := (mem s')(AminB s' + HIST_LOW := mem s' (AminB s' + HIST_LOW) + 1)\<rparr>
              else if c \<ge> HIST_HGH
                then s'\<lparr>mem := (mem s')(AminB s' + HIST_HGH := mem s' (AminB s' + HIST_HGH) + 1)\<rparr>
              else s'\<lparr>mem := (mem s')(AminB s' + c := mem s' (AminB s' + c) + 1)\<rparr>))"

lemma drain_body_remaining:
  "drain_body LOW HGH s = Some s' \<Longrightarrow> remaining (Tv s') < remaining (Tv s)"
  by (auto simp: drain_body_def Let_def split: option.splits if_splits dest!: Next_at_remaining)

text \<open>The drain loop \<^verbatim>\<open>while (iptr != NULL)\<close>, lines 105-114.\<close>

function Venn2_drain :: "int \<Rightarrow> int \<Rightarrow> venn2_vars \<Rightarrow> venn2_vars option" where
  "Venn2_drain HIST_LOW HIST_HGH s =
     (if iptr s \<noteq> None then
        (case drain_body HIST_LOW HIST_HGH s of
           None \<Rightarrow> None
         | Some s' \<Rightarrow> Venn2_drain HIST_LOW HIST_HGH s')
      else Some s)"
  by pat_completeness auto
termination
  by (relation "measure (\<lambda>(l, h, s). remaining (Tv s))") (auto dest: drain_body_remaining)

declare Venn2_drain.simps [simp del]

text \<open>
  \<^verbatim>\<open>Venn2(Tv,comb)\<close>: the set-up of lines 50-67, the compare loop, the drain loop. The
  result is the final value of the variables.
\<close>

definition Venn2 :: "int \<Rightarrow> int \<Rightarrow> Kmer_Stream list \<Rightarrow> addr list \<Rightarrow> store \<Rightarrow> venn2_vars option" where
  "Venn2 HIST_LOW HIST_HGH Ts cmb m =
     (if length Ts < 2 \<or> length cmb < 3 then None
      else
        let kb = kbyte (Ts ! 0);
            (T0, ip) = First_Kmer_Entry (Ts ! 0);
            (U0, jp) = First_Kmer_Entry (Ts ! 1);
            s = \<lparr>Tv = Ts[0 := T0, 1 := U0], curT = 0, curU = 1,
                 AminB = cmb ! 0, BminA = cmb ! 1, Inter_hist = cmb ! 2,
                 iptr = ip, jptr = jp, mem = m\<rparr>
        in (case Venn2_loop HIST_LOW HIST_HGH kb s of
              None \<Rightarrow> None
            | Some s1 \<Rightarrow> Venn2_drain HIST_LOW HIST_HGH s1))"

subsection \<open>The general N-way merge\<close>

text \<open>
  The variables of \<^verbatim>\<open>Venn\<close> (lines 117-155) that outlive one pass of its loop: \<open>Tn\<close>
  holds the stream objects \<^verbatim>\<open>T[0..nway-1]\<close> point to, \<open>ptr\<close> and \<open>comb\<close> are the arrays
  of that name, \<open>memn\<close> is the counter memory.
\<close>

record venn_vars =
  Tn :: "Kmer_Stream list"
  ptr :: "entry option list"
  comb :: "addr list"
  memn :: store

text \<open>Lines 127-129: the first stream from \<open>c\<close> on that is not at its end, or \<open>nway\<close>.\<close>

function first_active :: "entry option list \<Rightarrow> nat \<Rightarrow> nat \<Rightarrow> nat" where
  "first_active P nway c =
     (if c < nway then (if P ! c \<noteq> None then c else first_active P nway (c + 1)) else c)"
  by pat_completeness auto
termination
  by (relation "measure (\<lambda>(P, nway, c). nway - c)") auto

declare first_active.simps [simp del]

text \<open>
  Lines 134-145, from position \<open>c\<close> on. The list \<open>ins\<close> is \<^verbatim>\<open>in[0..itop-1]\<close>:
  \<^verbatim>\<open>in[itop++] = c\<close> appends \<open>c\<close>, and \<^verbatim>\<open>itop = 0; in[itop++] = c\<close> leaves \<open>[c]\<close>.
  The source calls \<^verbatim>\<open>mycmp\<close> twice on the same arguments (lines 137-138).
\<close>

function scan :: "int \<Rightarrow> entry option list \<Rightarrow> nat \<Rightarrow> nat \<Rightarrow> nat list \<Rightarrow> nat
                    \<Rightarrow> (nat list \<times> nat) option" where
  "scan kb P nway c ins imin =
     (if c < nway then
        (case P ! c of
           None \<Rightarrow> scan kb P nway (c + 1) ins imin
         | Some p \<Rightarrow>
            (case P ! imin of
               None \<Rightarrow> None
             | Some q \<Rightarrow>
                (case mycmp (fst p) (fst q) kb of
                   None \<Rightarrow> None
                 | Some v \<Rightarrow>
                     if v = 0 then scan kb P nway (c + 1) (ins @ [c]) imin
                     else if v < 0 then scan kb P nway (c + 1) [c] c
                     else scan kb P nway (c + 1) ins imin)))
      else Some (ins, imin))"
  by pat_completeness auto
termination
  by (relation "measure (\<lambda>(kb, P, nway, c, ins, imin). nway - c)") auto

declare scan.simps [simp del]

text \<open>
  Lines 148-152, over the entries of \<^verbatim>\<open>in\<close>: the mask \<^verbatim>\<open>v\<close> gets the bit of each
  stream \<open>x\<close> and the cursor of \<open>x\<close> moves. \<^verbatim>\<open>1 << x\<close> is defined for \<open>x < 31\<close>.
\<close>

fun advance :: "nat list \<Rightarrow> Kmer_Stream list \<Rightarrow> entry option list \<Rightarrow> int
                 \<Rightarrow> (Kmer_Stream list \<times> entry option list \<times> int) option" where
  "advance [] Ts P v = Some (Ts, P, v)"
| "advance (x # xs) Ts P v =
     (if x < 31 \<and> x < length P then
        (case Next_at Ts x of
           None \<Rightarrow> None
         | Some (Ts', p) \<Rightarrow> advance xs Ts' (P[x := p]) (v OR push_bit x 1))
      else None)"

text \<open>
  One pass through the loop of \<^verbatim>\<open>Venn\<close> for the first active stream \<open>c\<close>, lines
  132-153. The last line, \<^verbatim>\<open>comb[v-1] += 1\<close>, adds one to the entry \<open>v - 1\<close> of the
  array \<open>comb\<close>, whose entries have the type \<^verbatim>\<open>int64 *\<close>: the pointer moves by one cell.
\<close>

definition Venn_body :: "int \<Rightarrow> nat \<Rightarrow> nat \<Rightarrow> venn_vars \<Rightarrow> venn_vars option" where
  "Venn_body kb nway c s =
     (case scan kb (ptr s) nway (c + 1) [c] c of
        None \<Rightarrow> None
      | Some (ins, imin) \<Rightarrow>
         (case advance ins (Tn s) (ptr s) 0 of
            None \<Rightarrow> None
          | Some (Ts', P', v) \<Rightarrow>
              if 1 \<le> v \<and> nat (v - 1) < length (comb s)
              then Some (s\<lparr>Tn := Ts', ptr := P',
                           comb := (comb s)[nat (v - 1) := comb s ! nat (v - 1) + 1]\<rparr>)
              else None))"

lemma scan_nonempty:
  "scan kb P nway c ins imin = Some (ins', imin') \<Longrightarrow> ins \<noteq> [] \<Longrightarrow> ins' \<noteq> []"
proof (induction kb P nway c ins imin rule: scan.induct)
  case (1 kb P nway c ins imin)
  show ?case
  proof (cases "c < nway")
    case False
    with "1.prems" show ?thesis by (subst (asm) scan.simps) simp
  next
    case True
    with "1.prems" "1.IH" show ?thesis
      by (subst (asm) scan.simps) (auto split: option.splits if_splits)
  qed
qed

lemma advance_remaining:
  "advance xs Ts P v = Some (Ts', P', v') \<Longrightarrow> remaining Ts' \<le> remaining Ts"
proof (induction xs arbitrary: Ts P v)
  case Nil
  then show ?case by simp
next
  case (Cons x xs)
  then show ?case
    by (fastforce split: if_splits option.splits dest: Next_at_remaining)
qed

lemma advance_remaining_less:
  "advance xs Ts P v = Some (Ts', P', v') \<Longrightarrow> xs \<noteq> [] \<Longrightarrow> remaining Ts' < remaining Ts"
  by (cases xs)
     (fastforce split: if_splits option.splits dest: Next_at_remaining advance_remaining)+

lemma Venn_body_remaining:
  "Venn_body kb nway c s = Some s' \<Longrightarrow> remaining (Tn s') < remaining (Tn s)"
  unfolding Venn_body_def
  by (auto split: option.splits if_splits dest!: scan_nonempty advance_remaining_less)

text \<open>The loop \<^verbatim>\<open>while (1)\<close> of \<^verbatim>\<open>Venn\<close>, lines 126-154.\<close>

function Venn_loop :: "int \<Rightarrow> nat \<Rightarrow> venn_vars \<Rightarrow> venn_vars option" where
  "Venn_loop kb nway s =
     (let c = first_active (ptr s) nway 0 in
      if c \<ge> nway then Some s
      else (case Venn_body kb nway c s of
              None \<Rightarrow> None
            | Some s' \<Rightarrow> Venn_loop kb nway s'))"
  by pat_completeness auto
termination
  by (relation "measure (\<lambda>(kb, nway, s). remaining (Tn s))") (auto dest: Venn_body_remaining)

declare Venn_loop.simps [simp del]

text \<open>
  \<^verbatim>\<open>Venn(T,comb,nway)\<close>: \<^verbatim>\<open>kbyte\<close> from \<^verbatim>\<open>T[0]\<close>, the loop of lines 124-125 that takes
  the first entry of each of the \<open>nway\<close> streams, then the merge loop.
\<close>

definition Venn :: "Kmer_Stream list \<Rightarrow> addr list \<Rightarrow> nat \<Rightarrow> store \<Rightarrow> venn_vars option" where
  "Venn Ts cmb nway m =
     (if nway = 0 \<or> length Ts < nway then None
      else
        let kb = kbyte (Ts ! 0);
            F = map First_Kmer_Entry (take nway Ts)
        in Venn_loop kb nway
             \<lparr>Tn = map fst F @ drop nway Ts, ptr = map snd F, comb = cmb, memn = m\<rparr>)"

subsection \<open>The command line\<close>

text \<open>The fatal errors of \<^verbatim>\<open>main\<close>: each prints one line on standard error, then \<^verbatim>\<open>exit (1)\<close>.\<close>

datatype fatal =
    Illegal_option string
  | Count_out_of_range int
  | Range_invalid
  | Syntax_invalid
  | Usage_error
  | Cannot_open string
  | Different_K

text \<open>
  \<^verbatim>\<open>strtol(s,&eptr,10)\<close> of the C library for a 64-bit \<^verbatim>\<open>long\<close>: white space, an optional
  sign, decimal digits; the value (held to the range of \<^verbatim>\<open>long\<close>) and the rest of the
  string that \<^verbatim>\<open>eptr\<close> points to. Without a digit nothing is converted: the value is 0 and
  \<^verbatim>\<open>eptr\<close> is \<open>s\<close>. \<open>int_of_long\<close> is the assignment of the \<^verbatim>\<open>long\<close> to an \<^verbatim>\<open>int\<close>.
\<close>

definition isspace :: "char \<Rightarrow> bool" where
  "isspace c \<longleftrightarrow> c \<in> set [CHR '' '', CHR 0x09, CHR 0x0A, CHR 0x0B, CHR 0x0C, CHR 0x0D]"

definition isdigit :: "char \<Rightarrow> bool" where
  "isdigit c \<longleftrightarrow> c \<in> set ''0123456789''"

definition digit_value :: "char \<Rightarrow> int" where
  "digit_value c = of_char c - 48"

fun strtol_digits :: "string \<Rightarrow> int \<Rightarrow> int \<times> string" where
  "strtol_digits [] acc = (acc, [])"
| "strtol_digits (c # cs) acc =
     (if isdigit c then strtol_digits cs (acc * 10 + digit_value c) else (acc, c # cs))"

definition LONG_MAX :: int where
  "LONG_MAX = 2 ^ 63 - 1"

definition LONG_MIN :: int where
  "LONG_MIN = - (2 ^ 63)"

definition strtol :: "string \<Rightarrow> int \<times> string" where
  "strtol s =
     (let t = dropWhile isspace s;
          (neg, u) = (case t of
                        [] \<Rightarrow> (False, t)
                      | c # r \<Rightarrow> if c = CHR ''-'' then (True, r)
                                 else if c = CHR ''+'' then (False, r)
                                 else (False, t))
      in case u of
           [] \<Rightarrow> (0, s)
         | d # _ \<Rightarrow>
             if isdigit d then
               (let (n, rest) = strtol_digits u 0;
                    val = (if neg then - n else n)
                in (max LONG_MIN (min LONG_MAX val), rest))
             else (0, s))"

definition int_of_long :: "int \<Rightarrow> int" where
  "int_of_long x = sint (word_of_int x :: 32 word)"

text \<open>
  The case \<^verbatim>\<open>'h'\<close> of the option switch, lines 185-210, on the text after \<^verbatim>\<open>-h\<close>: a
  fatal error, or the new \<^verbatim>\<open>(HIST_LOW, HIST_HGH)\<close>. \<^verbatim>\<open>eptr > argv[i]+2\<close> holds when
  \<^verbatim>\<open>strtol\<close> consumed a character, and \<^verbatim>\<open>*eptr == '\0'\<close> when nothing is left.
\<close>

definition opt_h :: "string \<Rightarrow> fatal + int \<times> int" where
  "opt_h a =
     (let (l, eptr) = strtol a; HIST_LOW = int_of_long l in
      if length eptr < length a then
        if HIST_LOW < 1 \<or> HIST_LOW > 0x7fff then Inl (Count_out_of_range HIST_LOW)
        else
          (case eptr of
             [] \<Rightarrow> Inr (1, HIST_LOW)
           | c # e1 \<Rightarrow>
               if c = CHR '':'' then
                 (let (h, fptr) = strtol e1; HIST_HGH = int_of_long h in
                  if length fptr < length e1 \<and> fptr = [] then
                    (if HIST_LOW > HIST_HGH then Inl Range_invalid
                     else Inr (HIST_LOW, HIST_HGH))
                  else Inl Syntax_invalid)
               else Inl Syntax_invalid)
      else Inl Syntax_invalid)"

text \<open>
  The argument loop, lines 178-214, over \<^verbatim>\<open>argv[1..]\<close>: \<open>w\<close> is
  \<^verbatim>\<open>(HIST_LOW, HIST_HGH)\<close>, \<open>ops\<close> the operands kept so far. The macro \<^verbatim>\<open>ARG_FLAGS\<close> of
  \<^verbatim>\<open>libfastk.h\<close> is a parameter: \<open>Some e\<close> when it ends the program with the error \<open>e\<close>.
\<close>

fun parse_args :: "(string \<Rightarrow> fatal option) \<Rightarrow> string list \<Rightarrow> int \<times> int \<Rightarrow> string list
                    \<Rightarrow> fatal + int \<times> int \<times> string list" where
  "parse_args ARG_FLAGS [] w ops = Inr (fst w, snd w, ops)"
| "parse_args ARG_FLAGS (a # as) w ops =
     (if take 1 a = ''-'' then
        (if take 1 (drop 1 a) = ''h'' then
           (case opt_h (drop 2 a) of
              Inl e \<Rightarrow> Inl e
            | Inr w' \<Rightarrow> parse_args ARG_FLAGS as w' ops)
         else
           (case ARG_FLAGS a of
              Some e \<Rightarrow> Inl e
            | None \<Rightarrow> parse_args ARG_FLAGS as w ops))
      else parse_args ARG_FLAGS as w (ops @ [a]))"

text \<open>The arguments the loop keeps as operands (lines 212-213).\<close>

definition operands :: "string list \<Rightarrow> string list" where
  "operands argv = filter (\<lambda>a. take 1 a \<noteq> ''-'') argv"

subsection \<open>The histogram block\<close>

text \<open>
  Lines 233-241. \<^verbatim>\<open>hist\<close> is a block of \<^verbatim>\<open>(HIST_HGH-HIST_LOW)+1\<close> cells, at the
  addresses from 0; \<^verbatim>\<open>comb[0] = hist-HIST_LOW\<close> and each further \<^verbatim>\<open>comb[i]\<close> is
  \<^verbatim>\<open>(HIST_HGH-HIST_LOW)+1\<close> cells after \<^verbatim>\<open>comb[i-1]\<close>; \<^verbatim>\<open>bzero\<close> clears the block. The
  result is \<^verbatim>\<open>ncomb\<close>, the number of cells of the block, \<^verbatim>\<open>comb\<close> and the memory.
  \<^verbatim>\<open>1 << nway\<close> is defined for \<open>nway < 31\<close>; the allocations are taken to succeed.
\<close>

fun comb_fill :: "addr \<Rightarrow> int \<Rightarrow> nat \<Rightarrow> addr list" where
  "comb_fill prev step 0 = []"
| "comb_fill prev step (Suc n) = (prev + step) # comb_fill (prev + step) step n"

definition bzero :: "store \<Rightarrow> int \<Rightarrow> store" where
  "bzero m n = (\<lambda>a. if 0 \<le> a \<and> a < n then 0 else m a)"

definition alloc_hist :: "int \<Rightarrow> int \<Rightarrow> nat \<Rightarrow> store \<Rightarrow> (nat \<times> int \<times> addr list \<times> store) option" where
  "alloc_hist HIST_LOW HIST_HGH nway m =
     (if nway < 31 then
        (let ncomb = (2 :: nat) ^ nway - 1;
             cells = (HIST_HGH - HIST_LOW) + 1;
             cmb = (- HIST_LOW) # comb_fill (- HIST_LOW) ((HIST_HGH - HIST_LOW) + 1) (ncomb - 1)
         in Some (ncomb, cells, cmb, bzero m cells))
      else None)"

subsection \<open>Opening the tables and naming the outputs\<close>

text \<open>
  Lines 246-259, from operand \<open>n\<close> on, with \<open>k\<close> the value of \<^verbatim>\<open>kmer\<close>.
  \<^verbatim>\<open>Open_Kmer_Stream\<close> of \<^verbatim>\<open>libfastk.h\<close> reads the file system and is a parameter: the
  stream a name opens, or \<open>None\<close> for \<^verbatim>\<open>NULL\<close>.
\<close>

fun open_tables :: "(string \<Rightarrow> Kmer_Stream option) \<Rightarrow> string list \<Rightarrow> int
                     \<Rightarrow> fatal + Kmer_Stream list \<times> int" where
  "open_tables Open_Kmer_Stream [] k = Inr ([], k)"
| "open_tables Open_Kmer_Stream (n # ns) k =
     (case Open_Kmer_Stream n of
        None \<Rightarrow> Inl (Cannot_open n)
      | Some S \<Rightarrow>
          if k = 0 then
            (case open_tables Open_Kmer_Stream ns (kmer S) of
               Inl e \<Rightarrow> Inl e
             | Inr (Ts, k') \<Rightarrow> Inr (S # Ts, k'))
          else if kmer S \<noteq> k then Inl Different_K
          else
            (case open_tables Open_Kmer_Stream ns k of
               Inl e \<Rightarrow> Inl e
             | Inr (Ts, k') \<Rightarrow> Inr (S # Ts, k')))"

text \<open>
  Lines 267-284: \<^verbatim>\<open>upp[c]\<close> is the operand up to its first \<^verbatim>\<open>'.'\<close> in upper case, and
  \<^verbatim>\<open>low[c]\<close> is a copy of \<^verbatim>\<open>upp[c]\<close> put in lower case (\<^verbatim>\<open>toupper\<close> and \<^verbatim>\<open>tolower\<close> of the
  C locale).
\<close>

definition toupper :: "char \<Rightarrow> char" where
  "toupper c = (if (97::nat) \<le> of_char c \<and> of_char c \<le> (122::nat)
                then char_of (of_char c - (32::nat)) else c)"

definition tolower :: "char \<Rightarrow> char" where
  "tolower c = (if (65::nat) \<le> of_char c \<and> of_char c \<le> (90::nat)
                then char_of (of_char c + (32::nat)) else c)"

definition upper_name :: "string \<Rightarrow> string" where
  "upper_name n = map toupper (takeWhile (\<lambda>c. c \<noteq> CHR ''.'') n)"

definition lower_name :: "string \<Rightarrow> string" where
  "lower_name n = map tolower (upper_name n)"

text \<open>
  The name of the file for the mask \<open>i\<close>, lines 297-307: the loop over the streams from
  \<open>c\<close> on with the bit \<open>b\<close>, then \<^verbatim>\<open>".hist"\<close>. The source sets \<^verbatim>\<open>b = 1\<close> before the loop
  and does not change it in the loop.
\<close>

function hist_name_loop :: "int \<Rightarrow> int \<Rightarrow> string list \<Rightarrow> string list \<Rightarrow> nat \<Rightarrow> nat \<Rightarrow> string" where
  "hist_name_loop i b upp low nway c =
     (if c < nway then
        (if c \<noteq> 0 then ''_'' else []) @
        (if b AND i \<noteq> 0 then upp ! c else low ! c) @
        hist_name_loop i b upp low nway (c + 1)
      else [])"
  by pat_completeness auto
termination
  by (relation "measure (\<lambda>(i, b, upp, low, nway, c). nway - c)") auto

declare hist_name_loop.simps [simp del]

definition hist_name :: "int \<Rightarrow> string list \<Rightarrow> string list \<Rightarrow> nat \<Rightarrow> string" where
  "hist_name i upp low nway = hist_name_loop i 1 upp low nway 0 @ ''.hist''"

text \<open>
  What the four \<^verbatim>\<open>write\<close> calls of lines 310-313 put in a file: three \<^verbatim>\<open>int\<close>, then the
  \<^verbatim>\<open>(HIST_HGH-HIST_LOW)+1\<close> cells from \<^verbatim>\<open>comb[i-1]+HIST_LOW\<close> on.
\<close>

datatype item = Int32 int | Int64 int64

definition payload :: "int \<Rightarrow> int \<Rightarrow> int \<Rightarrow> store \<Rightarrow> addr \<Rightarrow> item list" where
  "payload k HIST_LOW HIST_HGH m h =
     [Int32 k, Int32 HIST_LOW, Int32 HIST_HGH] @
     map (\<lambda>j. Int64 (m (h + HIST_LOW + int j))) [0 ..< nat ((HIST_HGH - HIST_LOW) + 1)]"

text \<open>
  The block that \<^verbatim>\<open>Malloc\<close> returned for \<^verbatim>\<open>hist\<close> has the cells at the addresses from 0
  to \<open>cells - 1\<close>. C does not define a read or a write of a cell outside the block.
  \<open>hist_cells\<close> lists the cells of the bins \<open>HIST_LOW\<close> to \<open>HIST_HGH\<close> of the histogram
  at \<open>h\<close>: the cells that line 313 reads for a file, and the only cells that \<^verbatim>\<open>Venn2\<close>
  can write to for a pointer \<open>h\<close> of \<^verbatim>\<open>comb\<close>.
\<close>

definition in_block :: "int \<Rightarrow> addr \<Rightarrow> bool" where
  "in_block cells a \<longleftrightarrow> 0 \<le> a \<and> a < cells"

definition hist_cells :: "int \<Rightarrow> int \<Rightarrow> addr \<Rightarrow> addr list" where
  "hist_cells HIST_LOW HIST_HGH h =
     map (\<lambda>j. h + HIST_LOW + int j) [0 ..< nat ((HIST_HGH - HIST_LOW) + 1)]"

text \<open>
  Whether the merge that took the memory from \<open>m\<close> to \<open>m'\<close> wrote to a cell outside the
  block. Every write of the merge adds one to a cell of a histogram of \<^verbatim>\<open>comb\<close>, so a cell
  that was written to holds another value afterwards (it would take \<open>2^64\<close> writes to one
  cell to bring it back to its value, and the number of entries of a table is an
  \<^verbatim>\<open>int64\<close>).
\<close>

definition wrote_outside :: "int \<Rightarrow> int \<Rightarrow> int \<Rightarrow> addr list \<Rightarrow> store \<Rightarrow> store \<Rightarrow> bool" where
  "wrote_outside cells HIST_LOW HIST_HGH cmb m m' \<longleftrightarrow>
     list_ex (\<lambda>a. \<not> in_block cells a \<and> m' a \<noteq> m a)
       (concat (map (hist_cells HIST_LOW HIST_HGH) cmb))"

text \<open>
  The output loop, lines 296-315, for the masks \<open>is\<close>: the files in the order they are
  written, and whether the loop came to its end. The loop is left at the first mask whose
  \<^verbatim>\<open>write\<close> of line 313 would read a cell outside the block; the file of that mask has
  been opened and holds the three values of lines 310-312 by then.
\<close>

fun write_files :: "int \<Rightarrow> int \<Rightarrow> int \<Rightarrow> string list \<Rightarrow> string list \<Rightarrow> nat \<Rightarrow> int
                     \<Rightarrow> addr list \<Rightarrow> store \<Rightarrow> nat list \<Rightarrow> (string \<times> item list) list \<times> bool" where
  "write_files k HIST_LOW HIST_HGH upp low nway cells cmb m [] = ([], True)"
| "write_files k HIST_LOW HIST_HGH upp low nway cells cmb m (i # is) =
     (if list_all (in_block cells) (hist_cells HIST_LOW HIST_HGH (cmb ! (i - 1))) then
        (case write_files k HIST_LOW HIST_HGH upp low nway cells cmb m is of
           (fs, finished) \<Rightarrow>
             ((hist_name (int i) upp low nway, payload k HIST_LOW HIST_HGH m (cmb ! (i - 1))) # fs,
              finished))
      else ([(hist_name (int i) upp low nway, [Int32 k, Int32 HIST_LOW, Int32 HIST_HGH])], False))"

subsection \<open>The program\<close>

text \<open>
  A run ends with \<^verbatim>\<open>exit (1)\<close> after one fatal error and without a file, or with
  \<^verbatim>\<open>exit (0)\<close> after it wrote its files, or it comes to a step that C does not define
  (\<open>Fault\<close>, with the files as they are written before that step).
\<close>

datatype outcome =
    Exit1 fatal
  | Exit0 "(string \<times> item list) list"
  | Fault "(string \<times> item list) list"

text \<open>
  \<^verbatim>\<open>main\<close>, with \<open>argv\<close> the arguments after the program name and \<open>m0\<close> the memory
  before the run. \<^verbatim>\<open>Venn2\<close> gets the array \<^verbatim>\<open>comb\<close> and leaves it as it is; \<^verbatim>\<open>Venn\<close>
  changes it. The steps that C does not define are \<^verbatim>\<open>1 << nway\<close> for \<open>nway \<ge> 31\<close>, a fault
  of the merge, a write of the merge to a cell outside the block, a read of line 313
  outside the block, and at the end \<^verbatim>\<open>free(comb[0])\<close> (line 333) unless \<^verbatim>\<open>comb[0]\<close> is
  the pointer \<^verbatim>\<open>hist\<close> that \<^verbatim>\<open>Malloc\<close> returned, the address 0.
\<close>

definition main :: "(string \<Rightarrow> fatal option) \<Rightarrow> (string \<Rightarrow> Kmer_Stream option) \<Rightarrow> store
                     \<Rightarrow> string list \<Rightarrow> outcome" where
  "main ARG_FLAGS Open_Kmer_Stream m0 argv =
     (case parse_args ARG_FLAGS argv (1, 100) [] of
        Inl e \<Rightarrow> Exit1 e
      | Inr (HIST_LOW, HIST_HGH, ops) \<Rightarrow>
          let nway = length ops in
          if nway < 2 then Exit1 Usage_error
          else
            (case alloc_hist HIST_LOW HIST_HGH nway m0 of
               None \<Rightarrow> Fault []
             | Some (ncomb, cells, cmb, m1) \<Rightarrow>
                (case open_tables Open_Kmer_Stream ops 0 of
                   Inl e \<Rightarrow> Exit1 e
                 | Inr (Ts, k) \<Rightarrow>
                     let upp = map upper_name ops; low = map lower_name ops in
                     (case (if nway = 2
                            then map_option (\<lambda>s. (cmb, mem s)) (Venn2 HIST_LOW HIST_HGH Ts cmb m1)
                            else map_option (\<lambda>s. (comb s, memn s)) (Venn Ts cmb nway m1)) of
                        None \<Rightarrow> Fault []
                      | Some (cmb', m2) \<Rightarrow>
                          if wrote_outside cells HIST_LOW HIST_HGH cmb m1 m2 then Fault []
                          else
                            (case write_files k HIST_LOW HIST_HGH upp low nway cells cmb' m2
                                    [1 ..< Suc ncomb] of
                               (fs, finished) \<Rightarrow>
                                 if finished \<and> cmb' ! 0 = 0 then Exit0 fs else Fault fs)))))"

subsection \<open>Example tables\<close>

text \<open>
  Small tables for the concrete runs below: 4-mers in one byte (\<open>tabE\<close> has no entry), and
  one table of 5-mers.
  \<open>tabA\<close> and \<open>tabB\<close> are the tables of the end-to-end example of the specification.
\<close>

definition tabA :: Kmer_Stream where
  "tabA = \<lparr>kmer = 4, kbyte = 1, table = [([1], 5), ([2], 3)], cidx = 0\<rparr>"

definition tabB :: Kmer_Stream where
  "tabB = \<lparr>kmer = 4, kbyte = 1, table = [([2], 7), ([3], 2)], cidx = 0\<rparr>"

definition tabC :: Kmer_Stream where
  "tabC = \<lparr>kmer = 4, kbyte = 1, table = [([2], 7), ([200], 250)], cidx = 0\<rparr>"

definition tabD :: Kmer_Stream where
  "tabD = \<lparr>kmer = 5, kbyte = 2, table = [([1, 0], 5)], cidx = 0\<rparr>"

definition tabE :: Kmer_Stream where
  "tabE = \<lparr>kmer = 4, kbyte = 1, table = [], cidx = 0\<rparr>"

definition files :: "string \<Rightarrow> Kmer_Stream option" where
  "files n = (if n = ''a'' then Some tabA else if n = ''b.ktab'' then Some tabB
              else if n = ''c'' then Some tabC else if n = ''d'' then Some tabD
              else if n = ''e'' then Some tabE else None)"

section \<open>Properties of the key comparator\<close>

lemma mycmp_0: "mycmp a b 0 = Some 0"
  by (simp add: mycmp.simps)

lemma mycmp_Cons:
  "mycmp (x # a) (y # b) (int (Suc n)) =
     (if x \<noteq> y then Some (if x < y then - 1 else 1) else mycmp a b (int n))"
  by (subst mycmp.simps) simp

lemma unat_eq_uint8: "unat (x::uint8) = unat y \<longleftrightarrow> x = y"
  by (simp add: word_unat_eq_iff)

lemma mycmp_lex:
  "length a = n \<Longrightarrow> length b = n \<Longrightarrow>
   mycmp a b (int n) =
     Some (if map unat a < map unat b then - 1 else if a = b then 0 else 1)"
proof (induction n arbitrary: a b)
  case 0
  then show ?case by (simp add: mycmp_0)
next
  case (Suc n)
  then obtain x a' y b' where ab: "a = x # a'" "b = y # b'" "length a' = n" "length b' = n"
    by (metis length_Suc_conv)
  from Suc.IH [OF ab(3) ab(4)] ab show ?case
    by (auto simp: mycmp_Cons word_less_nat_alt unat_eq_uint8 simp del: of_nat_Suc)
qed

lemma map_unat_inj: "map unat (a :: uint8 list) = map unat b \<longleftrightarrow> a = b"
  by (simp add: inj_map_eq_map inj_on_def unat_eq_uint8)

lemma mycmp_first_difference:
  "length r = length r' \<Longrightarrow> x \<noteq> y \<Longrightarrow>
   mycmp (p @ x # r) (p @ y # r') (int (length p + Suc (length r))) =
     Some (if unat x < unat y then - 1 else 1)"
proof (induction p)
  case Nil
  then show ?case
    using mycmp_Cons [of x r y r' "length r"] by (simp add: word_less_nat_alt)
next
  case (Cons z p)
  then show ?case
    using mycmp_Cons [of z "p @ x # r" z "p @ y # r'" "length p + Suc (length r)"] by simp
qed

text \<open>
  Claim C9. For two keys of the same length \<open>n\<close>, \<open>mycmp\<close> returns (it never reads past
  a key) a negative number, zero or a positive number exactly as the first key is smaller
  than, equal to or greater than the second in the lexicographic order of their bytes read
  as unsigned numbers; it returns zero exactly for equal keys; and the sign is decided at
  the first position where the keys differ. The comparator is a function of its arguments
  alone: it has no state to change.
\<close>

theorem mycmp_lexicographic:
  assumes "length a = n" and "length b = n"
  shows "\<exists>v. mycmp a b (int n) = Some v
           \<and> (v < 0 \<longleftrightarrow> map unat a < map unat b)
           \<and> (v = 0 \<longleftrightarrow> a = b)
           \<and> (0 < v \<longleftrightarrow> map unat b < map unat a)
           \<and> (\<forall>p x r y r'. a = p @ x # r \<and> b = p @ y # r' \<and> x \<noteq> y
                 \<longrightarrow> v = (if unat x < unat y then - 1 else 1))"
proof -
  let ?v = "if map unat a < map unat b then - 1 else if a = b then 0 else (1::int)"
  have v: "mycmp a b (int n) = Some ?v"
    using assms by (rule mycmp_lex)
  have tri: "map unat a < map unat b \<or> a = b \<or> map unat b < map unat a"
    using map_unat_inj [of a b] by (metis linorder_less_linear)
  have irr: "\<not> (map unat a < map unat b \<and> map unat b < map unat a)"
    by (metis order_less_asym)
  have neq: "map unat a < map unat b \<Longrightarrow> a \<noteq> b" "map unat b < map unat a \<Longrightarrow> a \<noteq> b"
    by auto
  have diff: "?v = (if unat x < unat y then - 1 else 1)"
    if "a = p @ x # r" "b = p @ y # r'" "x \<noteq> y" for p x r y r'
  proof -
    have len: "length r = length r'" "n = length p + Suc (length r)"
      using assms that by auto
    from mycmp_first_difference [OF len(1) that(3), of p] v that len show ?thesis
      by simp
  qed
  show ?thesis
    apply (rule exI [of _ ?v])
    using v tri irr neq diff by auto
qed

theorem mycmp_lexicographic_witness:
  "length [1, 200, 3 :: uint8] = 3 \<and> length [1, 7, 9 :: uint8] = 3
   \<and> mycmp [1, 200, 3] [1, 7, 9] 3 = Some 1
   \<and> map unat [1, 7, 9 :: uint8] < map unat [1, 200, 3 :: uint8]"
  using mycmp_lexicographic [of "[1, 200, 3]" 3 "[1, 7, 9]"]
  by (auto simp: mycmp.simps)

section \<open>The command line and the set-up\<close>

lemma parse_args_operands:
  "parse_args AF as w ops = Inr (l, h, ops') \<Longrightarrow> ops' = ops @ operands as"
proof (induction as arbitrary: w ops)
  case Nil
  then show ?case by (simp add: operands_def)
next
  case (Cons a as)
  show ?case
  proof (cases "take 1 a = ''-''")
    case False
    with Cons.prems have "parse_args AF as w (ops @ [a]) = Inr (l, h, ops')" by simp
    from Cons.IH [OF this] False show ?thesis by (simp add: operands_def)
  next
    case True
    with Cons.prems obtain w' where "parse_args AF as w' ops = Inr (l, h, ops')"
      by (auto split: if_splits sum.splits option.splits)
    from Cons.IH [OF this] True show ?thesis by (simp add: operands_def)
  qed
qed

lemma operands_Cons_eq:
  assumes "operands (a # as) = a # as"
  shows "take 1 a \<noteq> ''-''" and "operands as = as"
proof -
  have le: "length (filter (\<lambda>a. take 1 a \<noteq> ''-'') as) \<le> length as"
    by (rule length_filter_le)
  show a: "take 1 a \<noteq> ''-''"
  proof
    assume "take 1 a = ''-''"
    with assms have "filter (\<lambda>a. take 1 a \<noteq> ''-'') as = a # as"
      by (simp add: operands_def)
    then have "length (filter (\<lambda>a. take 1 a \<noteq> ''-'') as) = Suc (length as)"
      by simp
    with le show False by linarith
  qed
  with assms show "operands as = as" by (simp add: operands_def)
qed

lemma parse_args_no_options:
  "operands as = as \<Longrightarrow> parse_args AF as w ops = Inr (fst w, snd w, ops @ as)"
proof (induction as arbitrary: ops)
  case Nil
  then show ?case by simp
next
  case (Cons a as)
  from operands_Cons_eq [OF Cons.prems] Cons.IH [of "ops @ [a]"] show ?case by simp
qed

lemma open_tables_differ:
  assumes "k \<noteq> 0" and "n \<in> set ns" and "Open_KS n = Some S" and "kmer S \<noteq> k"
  shows "\<exists>e. open_tables Open_KS ns k = Inl e \<and> (e = Different_K \<or> e \<in> Cannot_open ` set ns)"
  using assms(2)
proof (induction ns)
  case Nil
  then show ?case by simp
next
  case (Cons x ns)
  show ?case
  proof (cases "Open_KS x")
    case None
    then show ?thesis by simp
  next
    case (Some X)
    show ?thesis
    proof (cases "kmer X = k")
      case False
      with Some assms(1) show ?thesis by simp
    next
      case True
      with assms(3,4) Some have "x \<noteq> n" by auto
      with Cons.prems have "n \<in> set ns" by simp
      from Cons.IH [OF this] Some True assms(1) show ?thesis by auto
    qed
  qed
qed

lemma open_tables_mismatch:
  assumes "n \<in> set ns" and "n' \<in> set ns"
    and "Open_KS n = Some S" and "Open_KS n' = Some S'" and "kmer S \<noteq> kmer S'"
    and nz: "\<forall>x \<in> set ns. \<forall>X. Open_KS x = Some X \<longrightarrow> kmer X \<noteq> 0"
  shows "\<exists>e. open_tables Open_KS ns 0 = Inl e \<and> (e = Different_K \<or> e \<in> Cannot_open ` set ns)"
proof (cases ns)
  case Nil
  with assms(1) show ?thesis by simp
next
  case (Cons x xs)
  show ?thesis
  proof (cases "Open_KS x")
    case None
    with Cons show ?thesis by simp
  next
    case (Some X)
    with nz Cons have k: "kmer X \<noteq> 0" by simp
    from assms(5) have "kmer S \<noteq> kmer X \<or> kmer S' \<noteq> kmer X" by auto
    then obtain y Y where y: "y \<in> set ns" "Open_KS y = Some Y" "kmer Y \<noteq> kmer X"
      using assms(1-4) by blast
    with Some have "y \<noteq> x" by auto
    with y Cons have "y \<in> set xs" by simp
    from open_tables_differ [of "kmer X" y xs Open_KS Y, OF k this y(2,3)] Some Cons
    show ?thesis by auto
  qed
qed

text \<open>
  Claim C8. When fewer than two operands are given, or when two of the operands name
  tables that report different k-mer lengths, the run ends with \<^verbatim>\<open>exit (1)\<close> after exactly
  one error: an outcome \<open>Exit1 e\<close> carries one message and no output file, and no merge was
  run. The error is the one of the option parser if that failed first, the usage line for
  fewer than two operands, and otherwise the different-K message or, for an operand before
  the mismatch that cannot be opened, the cannot-open message. The k-mer lengths are taken
  to be positive (the code keeps 0 in \<^verbatim>\<open>kmer\<close> for "no table seen yet"), and the number of
  operands to be below 31, where \<^verbatim>\<open>1 << nway\<close> is defined.
\<close>

theorem main_configuration_errors:
  assumes "length (operands argv) < 2
           \<or> (length (operands argv) < 31
               \<and> (\<exists>n \<in> set (operands argv). \<exists>n' \<in> set (operands argv). \<exists>S S'.
                     Open_KS n = Some S \<and> Open_KS n' = Some S' \<and> kmer S \<noteq> kmer S')
               \<and> (\<forall>x \<in> set (operands argv). \<forall>X. Open_KS x = Some X \<longrightarrow> 0 < kmer X))"
  shows "\<exists>e. main AF Open_KS m argv = Exit1 e
           \<and> (parse_args AF argv (1, 100) [] = Inl e
               \<or> (length (operands argv) < 2 \<and> e = Usage_error)
               \<or> (2 \<le> length (operands argv)
                    \<and> (e = Different_K \<or> e \<in> Cannot_open ` set (operands argv))))"
proof (cases "parse_args AF argv (1, 100) []")
  case (Inl e)
  then show ?thesis by (simp add: main_def)
next
  case (Inr r)
  then obtain LOW HGH ops where r: "parse_args AF argv (1, 100) [] = Inr (LOW, HGH, ops)"
    by (cases r) auto
  from parse_args_operands [OF r] have ops: "ops = operands argv" by simp
  show ?thesis
  proof (cases "length ops < 2")
    case True
    with r ops show ?thesis by (simp add: main_def)
  next
    case False
    with assms ops have lt: "length ops < 31"
      and mm: "\<exists>n \<in> set ops. \<exists>n' \<in> set ops. \<exists>S S'.
                 Open_KS n = Some S \<and> Open_KS n' = Some S' \<and> kmer S \<noteq> kmer S'"
      and nz: "\<forall>x \<in> set ops. \<forall>X. Open_KS x = Some X \<longrightarrow> kmer X \<noteq> 0"
      by auto
    from mm obtain n n' S S' where "n \<in> set ops" "n' \<in> set ops"
      "Open_KS n = Some S" "Open_KS n' = Some S'" "kmer S \<noteq> kmer S'"
      by blast
    from open_tables_mismatch [OF this nz] obtain e where
      e: "open_tables Open_KS ops 0 = Inl e" "e = Different_K \<or> e \<in> Cannot_open ` set ops"
      by blast
    from lt obtain a where a: "alloc_hist LOW HGH (length ops) m = Some a"
      by (simp add: alloc_hist_def Let_def)
    from r False e a ops show ?thesis
      by (cases a) (auto simp: main_def Let_def)
  qed
qed

theorem main_configuration_errors_witness:
  "(\<exists>e. main (\<lambda>_. None) files (\<lambda>_. 0) [''-h5:50'', ''a'', ''d''] = Exit1 e
        \<and> (e = Different_K \<or> e \<in> Cannot_open ` set [''a'', ''d'']))
   \<and> main (\<lambda>_. None) files (\<lambda>_. 0) [''a''] = Exit1 Usage_error"
proof -
  have o1: "operands [''-h5:50'', ''a'', ''d''] = [''a'', ''d'']" and o2: "operands [''a''] = [''a'']"
    by (simp_all add: operands_def)
  have p1: "parse_args (\<lambda>_. None) [''-h5:50'', ''a'', ''d''] (1, 100) [] = Inr (5, 50, [''a'', ''d''])"
    and p2: "parse_args (\<lambda>_. None) [''a''] (1, 100) [] = Inr (1, 100, [''a''])"
    by code_simp+
  have h1: "length (operands [''-h5:50'', ''a'', ''d'']) < 31
     \<and> (\<exists>n \<in> set (operands [''-h5:50'', ''a'', ''d'']).
          \<exists>n' \<in> set (operands [''-h5:50'', ''a'', ''d'']). \<exists>S S'.
           files n = Some S \<and> files n' = Some S' \<and> kmer S \<noteq> kmer S')
     \<and> (\<forall>x \<in> set (operands [''-h5:50'', ''a'', ''d'']). \<forall>X. files x = Some X \<longrightarrow> 0 < kmer X)"
    unfolding o1 by (simp add: files_def tabA_def tabD_def)
  have h2: "length (operands [''a'']) < 2"
    unfolding o2 by simp
  from main_configuration_errors [of "[''-h5:50'', ''a'', ''d'']" files "\<lambda>_. None" "\<lambda>_. 0"] h1
  have "\<exists>e. main (\<lambda>_. None) files (\<lambda>_. 0) [''-h5:50'', ''a'', ''d''] = Exit1 e
        \<and> (e = Different_K \<or> e \<in> Cannot_open ` set [''a'', ''d''])"
    unfolding o1 p1 by auto
  moreover
  from main_configuration_errors [of "[''a'']" files "\<lambda>_. None" "\<lambda>_. 0"] h2
  have "main (\<lambda>_. None) files (\<lambda>_. 0) [''a''] = Exit1 Usage_error"
    unfolding o2 p2 by auto
  ultimately show ?thesis by simp
qed

text \<open>
  Claim C5. The claim is that a \<^verbatim>\<open>-h\<close> option with a bound outside \<open>[1, 32767]\<close> ends the
  run with an error, in particular \<^verbatim>\<open>-h<low>:<high>\<close> with a high bound above 32767. The
  code checks the range of the first number only (line 188). So \<^verbatim>\<open>-h40000\<close> is refused,
  but for \<^verbatim>\<open>-h1:40000\<close> the argument loop goes on with the window \<open>(1, 40000)\<close>.
\<close>

theorem opt_h_accepts_high_above_32767:
  "parse_args ARG_FLAGS [''-h1:40000'', ''a'', ''b''] (1, 100) [] = Inr (1, 40000, [''a'', ''b''])
   \<and> parse_args ARG_FLAGS [''-h40000'', ''a'', ''b''] (1, 100) [] = Inl (Count_out_of_range 40000)"
  by code_simp

text \<open>
  Claim C2. The claim is that the histograms of all \<open>2^N - 1\<close> masks lie in one zeroed
  block of \<open>(2^N - 1) * (HIGH - LOW + 1)\<close> counters. The code allocates and clears
  \<open>(HIGH - LOW) + 1\<close> counters (lines 234 and 241) and spaces the \<open>2^N - 1\<close> pointers of
  \<^verbatim>\<open>comb\<close> by that many cells (line 239). For two streams and the default window the block
  has 100 cells, at the addresses 0 to 99, and the pointers are -1, 99 and 199: bin 1 of the
  histogram of mask 2, at address \<open>99 + 1\<close>, is already outside the block.
\<close>

theorem alloc_hist_one_histogram:
  "alloc_hist 1 100 2 (\<lambda>_. 0) = Some (3, 100, [- 1, 99, 199], bzero (\<lambda>_. 0) 100)
   \<and> \<not> ([- 1, 99, 199] ! 1 + 1 < (100 :: int))"
  by (simp add: alloc_hist_def Let_def numeral_eq_Suc)

text \<open>
  What follows from the size of the block for a run: with the window \<open>[1, 3]\<close> and the
  tables \<open>a\<close> and \<open>b.ktab\<close> the block has the cells 0 to 2 and \<^verbatim>\<open>comb\<close> is \<open>-1, 2, 5\<close>;
  \<^verbatim>\<open>Venn2\<close> adds one to the cells 2, 4 and 8, so the run leaves what C defines in the merge,
  before it wrote a file. When the second table has no entry the merge stays in the block
  and the file of mask 1 is written; the \<^verbatim>\<open>write\<close> of the counters for mask 2 reads from
  cell 3 on.
\<close>

lemma main_example_faults:
  "main (\<lambda>_. None) files (\<lambda>_. 0) [''-h3'', ''a'', ''b.ktab''] = Fault []"
  "main (\<lambda>_. None) files (\<lambda>_. 0) [''-h3'', ''a'', ''e''] =
     Fault [(''A_E.hist'', [Int32 4, Int32 1, Int32 3, Int64 0, Int64 0, Int64 2]),
            (''a_e.hist'', [Int32 4, Int32 1, Int32 3])]"
  by code_simp+

lemma hist_name_loop_parity:
  "hist_name_loop i 1 upp low nway c = hist_name_loop (i mod 2) 1 upp low nway c"
proof (induction "nway - c" arbitrary: c)
  case 0
  then show ?case
    by (subst hist_name_loop.simps, subst (2) hist_name_loop.simps) simp
next
  case (Suc n)
  from Suc.hyps(2) have "n = nway - (c + 1)" by simp
  from Suc.hyps(1) [OF this] show ?case
    by (subst hist_name_loop.simps, subst (2) hist_name_loop.simps)
       (simp add: and_one_eq one_and_eq)
qed

text \<open>
  Claim C7. The claim is that the file of mask \<open>i\<close> is named by the identifiers in upper
  case for the streams whose bit is set in \<open>i\<close> and in lower case for the others. The
  source tests \<^verbatim>\<open>b & i\<close> with \<^verbatim>\<open>b\<close> left at 1 for every stream (lines 298-305), so the
  name depends on the lowest bit of the mask only: all identifiers are in upper case for an
  odd mask and in lower case for an even one. For the operands \<^verbatim>\<open>a\<close> and \<^verbatim>\<open>b.ktab\<close> the
  names of the masks 1, 2 and 3 are \<^verbatim>\<open>A_B.hist\<close>, \<^verbatim>\<open>a_b.hist\<close> and again \<^verbatim>\<open>A_B.hist\<close>,
  where the claim has \<^verbatim>\<open>A_b.hist\<close>, \<^verbatim>\<open>a_B.hist\<close> and \<^verbatim>\<open>A_B.hist\<close>.
\<close>

theorem hist_names_ignore_the_mask:
  "map (\<lambda>i. hist_name i (map upper_name [''a'', ''b.ktab''])
                        (map lower_name [''a'', ''b.ktab'']) 2) [1, 2, 3]
     = [''A_B.hist'', ''a_b.hist'', ''A_B.hist'']
   \<and> hist_name i upp low nway = hist_name (i mod 2) upp low nway"
proof
  show "map (\<lambda>i. hist_name i (map upper_name [''a'', ''b.ktab''])
                        (map lower_name [''a'', ''b.ktab'']) 2) [1, 2, 3]
     = [''A_B.hist'', ''a_b.hist'', ''A_B.hist'']"
    by code_simp
  show "hist_name i upp low nway = hist_name (i mod 2) upp low nway"
    unfolding hist_name_def using hist_name_loop_parity [of i upp low nway 0] by simp
qed

section \<open>The N-way merge\<close>

lemma Venn_loop_memn: "Venn_loop kb nway s = Some s' \<Longrightarrow> memn s' = memn s"
proof (induction kb nway s rule: Venn_loop.induct)
  case (1 kb nway s)
  show ?case
  proof (cases "first_active (ptr s) nway 0 \<ge> nway")
    case True
    with "1.prems" show ?thesis by (subst (asm) Venn_loop.simps) simp
  next
    case False
    with "1.prems" obtain s1 where b: "Venn_body kb nway (first_active (ptr s) nway 0) s = Some s1"
      and l: "Venn_loop kb nway s1 = Some s'"
      by (subst (asm) Venn_loop.simps) (auto simp: Let_def split: option.splits)
    from b have "memn s1 = memn s"
      by (auto simp: Venn_body_def split: option.splits if_splits)
    with "1.IH" [OF refl _ b l] False show ?thesis by simp
  qed
qed

lemma Venn_memn: "Venn Ts cmb nway m = Some s \<Longrightarrow> memn s = m"
  by (auto simp: Venn_def Let_def split: if_splits dest!: Venn_loop_memn)

lemma Venn_example_comb:
  "map_option comb (Venn [tabA, tabB, tabC] [- 1, 0, 1, 2, 3, 4, 5] 3 (\<lambda>_. 0))
     = Some [0, 1, 1, 3, 3, 4, 6]"
  by code_simp

text \<open>
  Claim C1. The claim is that the N-way merge adds one to the counter of the subset of
  each distinct k-mer, so that the counters of the \<open>2^N - 1\<close> subsets sum to the number
  of distinct k-mers. In the source the array \<^verbatim>\<open>comb\<close> holds the base pointers of the
  histograms, and \<^verbatim>\<open>comb[v-1] += 1\<close> (line 153) moves the pointer of the subset by one
  cell: no counter is changed. For the three tables \<open>tabA\<close>, \<open>tabB\<close>, \<open>tabC\<close>, which hold
  the four distinct k-mers 1, 2, 3 and 200, the window \<open>[1, 1]\<close> (so \<^verbatim>\<open>comb\<close> is
  \<open>-1, 0, ..., 5\<close>) and a zero memory, the merge returns with every counter still 0: the
  counters sum to 0, not to 4. The pointers of the masks 1, 2, 4 and 7 have moved by one.
\<close>

theorem Venn_counters_stay_zero:
  "\<exists>s. Venn [tabA, tabB, tabC] [- 1, 0, 1, 2, 3, 4, 5] 3 (\<lambda>_. 0) = Some s
       \<and> comb s = [0, 1, 1, 3, 3, 4, 6] \<and> (\<forall>a. memn s a = 0)"
proof -
  from Venn_example_comb obtain s
    where s: "Venn [tabA, tabB, tabC] [- 1, 0, 1, 2, 3, 4, 5] 3 (\<lambda>_. 0) = Some s"
      and c: "comb s = [0, 1, 1, 3, 3, 4, 6]"
    by auto
  from Venn_memn [OF s] have "\<forall>a. memn s a = 0" by simp
  with s c show ?thesis by blast
qed

section \<open>Streams, keys and the invariant of the N-way merge\<close>

text \<open>
  The notions the properties are stated with. \<open>rest S\<close> are the entries of a stream from
  its cursor on and \<open>step S\<close> is the stream with the cursor one entry further. A table is
  \<open>well_formed\<close> for a key length when all its keys have that many bytes, and
  \<open>increasing\<close> when its keys grow strictly in the lexicographic order of their unsigned
  bytes: the data model of the streams in the specification.
\<close>

definition rest :: "Kmer_Stream \<Rightarrow> entry list" where
  "rest S = drop (cidx S) (table S)"

definition step :: "Kmer_Stream \<Rightarrow> Kmer_Stream" where
  "step S = S\<lparr>cidx := cidx S + 1\<rparr>"

definition well_formed :: "int \<Rightarrow> Kmer_Stream \<Rightarrow> bool" where
  "well_formed kb S \<longleftrightarrow> 0 \<le> kb \<and> (\<forall>e \<in> set (table S). int (length (fst e)) = kb)"

definition increasing :: "Kmer_Stream \<Rightarrow> bool" where
  "increasing S \<longleftrightarrow> sorted_wrt (\<lambda>e e'. map unat (fst e) < map unat (fst e')) (table S)"

lemma current_rest: "current S = (case rest S of [] \<Rightarrow> None | e # _ \<Rightarrow> Some e)"
  by (auto simp: current_def rest_def hd_drop_conv_nth split: list.splits
      dest: arg_cong [where f = hd] simp flip: Cons_nth_drop_Suc)

lemma current_None: "current S = None \<longleftrightarrow> length (table S) \<le> cidx S"
  by (simp add: current_def)

lemma current_Some_mem: "current S = Some e \<Longrightarrow> e \<in> set (table S)"
  by (auto simp: current_def split: if_splits)

lemma Next_Kmer_Entry_Some:
  "cidx S < length (table S) \<Longrightarrow> Next_Kmer_Entry S = Some (step S, current (step S))"
  by (simp add: Next_Kmer_Entry_def step_def Let_def)

lemma Next_Kmer_Entry_None:
  "\<not> cidx S < length (table S) \<Longrightarrow> Next_Kmer_Entry S = None"
  by (simp add: Next_Kmer_Entry_def)

lemma step_simps [simp]:
  "table (step S) = table S" "cidx (step S) = Suc (cidx S)"
  "kmer (step S) = kmer S" "kbyte (step S) = kbyte S"
  by (simp_all add: step_def)

lemma well_formed_step [simp]: "well_formed kb (step S) = well_formed kb S"
  by (simp add: well_formed_def)

lemma Next_at_Some:
  "x < length Ts \<Longrightarrow> current (Ts ! x) \<noteq> None \<Longrightarrow>
   Next_at Ts x = Some (Ts[x := step (Ts ! x)], current (step (Ts ! x)))"
  by (simp add: Next_at_def Next_Kmer_Entry_Some current_def split: if_splits)

text \<open>mycmp on well-formed keys\<close>

lemma mycmp_wf:
  assumes "0 \<le> kb" "int (length a) = kb" "int (length b) = kb"
  shows "mycmp a b kb = Some (if map unat a < map unat b then - 1 else if a = b then 0 else 1)"
proof -
  from assms have "length a = nat kb" "length b = nat kb" "int (nat kb) = kb" by auto
  with mycmp_lex [of a "nat kb" b] show ?thesis by simp
qed

lemma first_active_bounds:
  "c \<le> nway \<Longrightarrow> c \<le> first_active P nway c \<and> first_active P nway c \<le> nway"
proof (induction P nway c rule: first_active.induct)
  case (1 P nway c)
  then show ?case by (subst first_active.simps, subst (2) first_active.simps) auto
qed

lemma first_active_Some:
  "first_active P nway c < nway \<Longrightarrow> P ! first_active P nway c \<noteq> None"
proof (induction P nway c rule: first_active.induct)
  case (1 P nway c)
  then show ?case by (subst first_active.simps, subst (asm) (2) first_active.simps) (auto split: if_splits)
qed

lemma first_active_skips:
  "c \<le> i \<Longrightarrow> i < first_active P nway c \<Longrightarrow> i < nway \<Longrightarrow> P ! i = None"
proof (induction P nway c rule: first_active.induct)
  case (1 P nway c)
  show ?case
  proof (cases "c < nway \<and> P ! c = None")
    case True
    with "1.prems" have f: "first_active P nway c = first_active P nway (c + 1)"
      by (subst first_active.simps) simp
    show ?thesis
    proof (cases "i = c")
      case True
      with \<open>c < nway \<and> P ! c = None\<close> show ?thesis by simp
    next
      case False
      with "1.prems" f True "1.IH" [of ] show ?thesis by auto
    qed
  next
    case False
    with "1.prems" show ?thesis by (subst (asm) first_active.simps) (auto split: if_splits)
  qed
qed

lemma first_active_all_None:
  "nway \<le> first_active P nway 0 \<Longrightarrow> i < nway \<Longrightarrow> P ! i = None"
  using first_active_skips [of 0 i P nway] by simp



definition key_at :: "entry option list \<Rightarrow> nat \<Rightarrow> uint8 list option" where
  "key_at P i = map_option fst (P ! i)"

lemma key_at_None [simp]: "P ! i = None \<Longrightarrow> key_at P i = None"
  by (simp add: key_at_def)

lemma key_at_Some [simp]: "P ! i = Some p \<Longrightarrow> key_at P i = Some (fst p)"
  by (simp add: key_at_def)

lemma scan_tied:
  assumes wf: "0 \<le> kb" "\<forall>i<nway. \<forall>k. key_at P i = Some k \<longrightarrow> int (length k) = kb"
    and "imin < c" "c \<le> nway" "P ! imin = Some q"
    and "ins = filter (\<lambda>i. key_at P i = Some (fst q)) [0..<c]"
    and "\<forall>i<c. \<forall>k. key_at P i = Some k \<longrightarrow> \<not> map unat k < map unat (fst q)"
  shows "\<exists>imin' q'. scan kb P nway c ins imin =
            Some (filter (\<lambda>i. key_at P i = Some (fst q')) [0..<nway], imin')
          \<and> imin' < nway \<and> P ! imin' = Some q'
          \<and> (\<forall>i<nway. \<forall>k. key_at P i = Some k \<longrightarrow> \<not> map unat k < map unat (fst q'))"
  using assms(3-)
proof (induction "nway - c" arbitrary: c ins imin q)
  case 0
  then have c: "c = nway" by simp
  then have "scan kb P nway c ins imin = Some (ins, imin)"
    by (subst scan.simps) simp
  with 0 c show ?case
    by (intro exI [of _ imin] exI [of _ q]) simp
next
  case (Suc d)
  then have c: "c < nway" and d: "d = nway - (c + 1)" by auto
  from Suc.prems c have imin: "imin < nway" by simp
  moreover have "key_at P imin = Some (fst q)" using Suc.prems by simp
  ultimately have lq: "int (length (fst q)) = kb" using wf(2) by blast
  show ?case
  proof (cases "P ! c")
    case None
    have "scan kb P nway c ins imin = scan kb P nway (c + 1) ins imin"
      using c None by (subst scan.simps) simp
    moreover have "\<exists>imin' q'. scan kb P nway (c + 1) ins imin =
            Some (filter (\<lambda>i. key_at P i = Some (fst q')) [0..<nway], imin')
          \<and> imin' < nway \<and> P ! imin' = Some q'
          \<and> (\<forall>i<nway. \<forall>k. key_at P i = Some k \<longrightarrow> \<not> map unat k < map unat (fst q'))"
    proof (rule Suc.hyps(1) [OF d])
      show "imin < c + 1" using Suc.prems by simp
      show "c + 1 \<le> nway" using c by simp
      show "P ! imin = Some q" by fact
      show "ins = filter (\<lambda>i. key_at P i = Some (fst q)) [0..<c + 1]"
        using Suc.prems None by simp
      show "\<forall>i<c + 1. \<forall>k. key_at P i = Some k \<longrightarrow> \<not> map unat k < map unat (fst q)"
        using Suc.prems None by (auto simp: less_Suc_eq)
    qed
    ultimately show ?thesis by simp
  next
    case (Some p)
    then have "key_at P c = Some (fst p)" by simp
    with wf(2) c have lp: "int (length (fst p)) = kb" by blast
    let ?v = "if map unat (fst p) < map unat (fst q) then - 1 else if fst p = fst q then 0 else (1::int)"
    have cmp: "mycmp (fst p) (fst q) kb = Some ?v"
      by (rule mycmp_wf [OF wf(1) lp lq])
    consider (eq) "fst p = fst q" | (lt) "map unat (fst p) < map unat (fst q)"
      | (gt) "fst p \<noteq> fst q" "\<not> map unat (fst p) < map unat (fst q)"
      by blast
    then show ?thesis
    proof cases
      case eq
      have "scan kb P nway c ins imin = scan kb P nway (c + 1) (ins @ [c]) imin"
        using c Some Suc.prems(3) cmp eq by (subst scan.simps) simp
      moreover have "\<exists>imin' q'. scan kb P nway (c + 1) (ins @ [c]) imin =
            Some (filter (\<lambda>i. key_at P i = Some (fst q')) [0..<nway], imin')
          \<and> imin' < nway \<and> P ! imin' = Some q'
          \<and> (\<forall>i<nway. \<forall>k. key_at P i = Some k \<longrightarrow> \<not> map unat k < map unat (fst q'))"
      proof (rule Suc.hyps(1) [OF d])
        show "imin < c + 1" using Suc.prems by simp
        show "c + 1 \<le> nway" using c by simp
        show "P ! imin = Some q" by fact
        show "ins @ [c] = filter (\<lambda>i. key_at P i = Some (fst q)) [0..<c + 1]"
          using Suc.prems Some eq by simp
        show "\<forall>i<c + 1. \<forall>k. key_at P i = Some k \<longrightarrow> \<not> map unat k < map unat (fst q)"
          using Suc.prems Some eq by (auto simp: less_Suc_eq)
      qed
      ultimately show ?thesis by simp
    next
      case lt
      have "scan kb P nway c ins imin = scan kb P nway (c + 1) [c] c"
        using c Some Suc.prems(3) cmp lt by (subst scan.simps) simp
      moreover have "\<exists>imin' q'. scan kb P nway (c + 1) [c] c =
            Some (filter (\<lambda>i. key_at P i = Some (fst q')) [0..<nway], imin')
          \<and> imin' < nway \<and> P ! imin' = Some q'
          \<and> (\<forall>i<nway. \<forall>k. key_at P i = Some k \<longrightarrow> \<not> map unat k < map unat (fst q'))"
      proof (rule Suc.hyps(1) [OF d])
        show "c < c + 1" by simp
        show "c + 1 \<le> nway" using c by simp
        show "P ! c = Some p" by fact
        have old: "\<not> map unat k < map unat (fst p) \<and> k \<noteq> fst p"
          if "i < c" "key_at P i = Some k" for i k
        proof -
          from Suc.prems(5) that have "\<not> map unat k < map unat (fst q)" by blast
          with lt show ?thesis by (auto dest: less_trans)
        qed
        then have "filter (\<lambda>i. key_at P i = Some (fst p)) [0..<c] = []"
          unfolding filter_empty_conv by (metis atLeastLessThan_iff set_upt)
        then show "[c] = filter (\<lambda>i. key_at P i = Some (fst p)) [0..<c + 1]"
          using Some by simp
        show "\<forall>i<c + 1. \<forall>k. key_at P i = Some k \<longrightarrow> \<not> map unat k < map unat (fst p)"
          using old Some by (auto simp: less_Suc_eq)
      qed
      ultimately show ?thesis by simp
    next
      case gt
      have "scan kb P nway c ins imin = scan kb P nway (c + 1) ins imin"
        using c Some Suc.prems(3) cmp gt by (subst scan.simps) simp
      moreover have "\<exists>imin' q'. scan kb P nway (c + 1) ins imin =
            Some (filter (\<lambda>i. key_at P i = Some (fst q')) [0..<nway], imin')
          \<and> imin' < nway \<and> P ! imin' = Some q'
          \<and> (\<forall>i<nway. \<forall>k. key_at P i = Some k \<longrightarrow> \<not> map unat k < map unat (fst q'))"
      proof (rule Suc.hyps(1) [OF d])
        show "imin < c + 1" using Suc.prems by simp
        show "c + 1 \<le> nway" using c by simp
        show "P ! imin = Some q" by fact
        show "ins = filter (\<lambda>i. key_at P i = Some (fst q)) [0..<c + 1]"
          using Suc.prems Some gt by simp
        show "\<forall>i<c + 1. \<forall>k. key_at P i = Some k \<longrightarrow> \<not> map unat k < map unat (fst q)"
          using Suc.prems Some gt by (auto simp: less_Suc_eq)
      qed
      ultimately show ?thesis by simp
    qed
  qed
qed

lemma bit_or_push_bit_1: "bit (v OR push_bit x (1::int)) n \<longleftrightarrow> bit v n \<or> n = x"
  by (auto simp: bit_or_iff bit_exp_iff)

lemma bit_or_exp: "bit (v OR (2::int) ^ x) n \<longleftrightarrow> bit v n \<or> n = x"
  by (auto simp: bit_or_iff bit_exp_iff)

lemma advance_tied:
  assumes "distinct xs"
    and "\<forall>x \<in> set xs. x < length Ts \<and> x < 31 \<and> current (Ts ! x) \<noteq> None"
    and "length P = length Ts"
  shows "\<exists>Ts' P' v'. advance xs Ts P v = Some (Ts', P', v')
          \<and> length Ts' = length Ts \<and> length P' = length Ts
          \<and> (\<forall>c<length Ts. Ts' ! c = (if c \<in> set xs then step (Ts ! c) else Ts ! c))
          \<and> (\<forall>c<length Ts. P' ! c = (if c \<in> set xs then current (step (Ts ! c)) else P ! c))
          \<and> (\<forall>n. bit v' n \<longleftrightarrow> bit v n \<or> n \<in> set xs)
          \<and> (0 \<le> v \<longrightarrow> 0 \<le> v')"
  using assms
proof (induction xs arbitrary: Ts P v)
  case Nil
  then show ?case by simp
next
  case (Cons x xs)
  let ?Ts = "Ts[x := step (Ts ! x)]"
  let ?P = "P[x := current (step (Ts ! x))]"
  let ?v = "v OR push_bit x 1"
  from Cons.prems have x: "x < length Ts" "x < 31" "current (Ts ! x) \<noteq> None" "x \<notin> set xs"
    by auto
  have adv: "advance (x # xs) Ts P v = advance xs ?Ts ?P ?v"
    using x Cons.prems(3) by (simp add: Next_at_Some)
  have "\<exists>Ts' P' v'. advance xs ?Ts ?P ?v = Some (Ts', P', v')
          \<and> length Ts' = length ?Ts \<and> length P' = length ?Ts
          \<and> (\<forall>c<length ?Ts. Ts' ! c = (if c \<in> set xs then step (?Ts ! c) else ?Ts ! c))
          \<and> (\<forall>c<length ?Ts. P' ! c = (if c \<in> set xs then current (step (?Ts ! c)) else ?P ! c))
          \<and> (\<forall>n. bit v' n \<longleftrightarrow> bit ?v n \<or> n \<in> set xs)
          \<and> (0 \<le> ?v \<longrightarrow> 0 \<le> v')"
  proof (rule Cons.IH)
    show "distinct xs" using Cons.prems by simp
    show "\<forall>y \<in> set xs. y < length ?Ts \<and> y < 31 \<and> current (?Ts ! y) \<noteq> None"
      using Cons.prems x by (auto simp: nth_list_update)
    show "length ?P = length ?Ts" using Cons.prems by simp
  qed
  then obtain Ts' P' v' where r: "advance xs ?Ts ?P ?v = Some (Ts', P', v')"
    "length Ts' = length Ts" "length P' = length Ts"
    "\<forall>c<length Ts. Ts' ! c = (if c \<in> set xs then step (?Ts ! c) else ?Ts ! c)"
    "\<forall>c<length Ts. P' ! c = (if c \<in> set xs then current (step (?Ts ! c)) else ?P ! c)"
    "\<forall>n. bit v' n \<longleftrightarrow> bit ?v n \<or> n \<in> set xs"
    "0 \<le> ?v \<longrightarrow> 0 \<le> v'"
    by auto
  have "\<forall>c<length Ts. Ts' ! c = (if c \<in> set (x # xs) then step (Ts ! c) else Ts ! c)"
    using r(4) x by (auto simp: nth_list_update)
  moreover have "\<forall>c<length Ts. P' ! c = (if c \<in> set (x # xs) then current (step (Ts ! c)) else P ! c)"
    using r(5) x Cons.prems(3) by (auto simp: nth_list_update)
  moreover have "\<forall>n. bit v' n \<longleftrightarrow> bit v n \<or> n \<in> set (x # xs)"
    using r(6) by (auto simp: bit_or_exp)
  moreover have "0 \<le> v \<longrightarrow> 0 \<le> v'"
    using r(7) by simp
  ultimately show ?case
    using adv r(1-3) by simp
qed

lemma bit_bound_int:
  assumes "0 \<le> (v::int)" and "\<forall>n. bit v n \<longrightarrow> n < N"
  shows "v < 2 ^ N"
proof -
  have "take_bit N v = v"
    by (rule bit_eqI) (use assms in \<open>auto simp: bit_take_bit_iff\<close>)
  then show ?thesis
    by (metis take_bit_int_less_exp)
qed

lemma bit_high_int:
  assumes "0 \<le> (v::int)" and "v < 2 ^ N" and "N \<le> n"
  shows "\<not> bit v n"
proof -
  have "v < 2 ^ n"
    using assms by (meson order_less_le_trans power_increasing one_le_numeral)
  with assms(1) show ?thesis by (simp add: bit_iff_odd)
qed

definition venn_inv :: "int \<Rightarrow> nat \<Rightarrow> venn_vars \<Rightarrow> bool" where
  "venn_inv kb nway s \<longleftrightarrow>
     nway < 31 \<and> length (Tn s) = nway \<and> ptr s = map current (Tn s)
     \<and> (\<forall>S \<in> set (Tn s). well_formed kb S \<and> cidx S \<le> length (table S))
     \<and> length (comb s) = 2 ^ nway - 1"

lemma venn_inv_key_length:
  assumes "venn_inv kb nway s" and "i < nway" and "key_at (ptr s) i = Some k"
  shows "int (length k) = kb"
proof -
  from assms have i: "i < length (Tn s)" and p: "ptr s ! i = current (Tn s ! i)"
    by (auto simp: venn_inv_def)
  from assms(3) p obtain e where e: "current (Tn s ! i) = Some e" "k = fst e"
    by (auto simp: key_at_def)
  from current_Some_mem [OF e(1)] assms(1) i e(2) show ?thesis
    by (auto simp: venn_inv_def well_formed_def)
qed

lemma Venn_body_step:
  assumes inv: "venn_inv kb nway s"
    and act: "first_active (ptr s) nway 0 < nway"
  shows "\<exists>s' kmin v. Venn_body kb nway (first_active (ptr s) nway 0) s = Some s'
      \<and> venn_inv kb nway s' \<and> memn s' = memn s
      \<and> (\<exists>c<nway. key_at (ptr s) c = Some kmin)
      \<and> (\<forall>c<nway. \<forall>k. key_at (ptr s) c = Some k \<longrightarrow> \<not> map unat k < map unat kmin)
      \<and> (\<forall>c<nway. Tn s' ! c = (if key_at (ptr s) c = Some kmin then step (Tn s ! c) else Tn s ! c))
      \<and> 1 \<le> v \<and> v < 2 ^ nway
      \<and> (\<forall>n. bit v n \<longleftrightarrow> n < nway \<and> key_at (ptr s) n = Some kmin)
      \<and> comb s' = (comb s)[nat (v - 1) := comb s ! nat (v - 1) + 1]"
proof -
  let ?c = "first_active (ptr s) nway 0"
  let ?P = "ptr s"
  from inv have kb: "0 \<le> kb" and len: "length (Tn s) = nway" "length ?P = nway"
    and P: "?P = map current (Tn s)" and n31: "nway < 31"
    and lc: "length (comb s) = 2 ^ nway - 1"
    using act by (auto simp: venn_inv_def well_formed_def dest!: nth_mem)
  from first_active_Some [OF act] obtain q where q: "?P ! ?c = Some q" by auto
  have skip: "i < ?c \<Longrightarrow> ?P ! i = None" for i
    using first_active_skips [of 0 i ?P nway] act by simp
  have "\<exists>imin' q'. scan kb ?P nway (?c + 1) [?c] ?c =
            Some (filter (\<lambda>i. key_at ?P i = Some (fst q')) [0..<nway], imin')
          \<and> imin' < nway \<and> ?P ! imin' = Some q'
          \<and> (\<forall>i<nway. \<forall>k. key_at ?P i = Some k \<longrightarrow> \<not> map unat k < map unat (fst q'))"
  proof (rule scan_tied [OF kb])
    show "\<forall>i<nway. \<forall>k. key_at ?P i = Some k \<longrightarrow> int (length k) = kb"
      using venn_inv_key_length [OF inv] by blast
    show "?c < ?c + 1" by simp
    show "?c + 1 \<le> nway" using act by simp
    show "?P ! ?c = Some q" by fact
    have "filter (\<lambda>i. key_at ?P i = Some (fst q)) [0..<?c] = []"
      unfolding filter_empty_conv using skip by auto
    then show "[?c] = filter (\<lambda>i. key_at ?P i = Some (fst q)) [0..<?c + 1]"
      using q by simp
    show "\<forall>i<?c + 1. \<forall>k. key_at ?P i = Some k \<longrightarrow> \<not> map unat k < map unat (fst q)"
      using skip q by (auto simp: less_Suc_eq)
  qed
  then obtain imin q' where sc: "scan kb ?P nway (?c + 1) [?c] ?c =
            Some (filter (\<lambda>i. key_at ?P i = Some (fst q')) [0..<nway], imin)"
    and imin: "imin < nway" "?P ! imin = Some q'"
    and least: "\<forall>i<nway. \<forall>k. key_at ?P i = Some k \<longrightarrow> \<not> map unat k < map unat (fst q')"
    by blast
  let ?ins = "filter (\<lambda>i. key_at ?P i = Some (fst q')) [0..<nway]"
  have ins: "set ?ins = {i. i < nway \<and> key_at ?P i = Some (fst q')}"
    by auto
  have "\<exists>Ts' P' v'. advance ?ins (Tn s) ?P 0 = Some (Ts', P', v')
          \<and> length Ts' = length (Tn s) \<and> length P' = length (Tn s)
          \<and> (\<forall>c<length (Tn s). Ts' ! c = (if c \<in> set ?ins then step (Tn s ! c) else Tn s ! c))
          \<and> (\<forall>c<length (Tn s). P' ! c = (if c \<in> set ?ins then current (step (Tn s ! c)) else ?P ! c))
          \<and> (\<forall>n. bit v' n \<longleftrightarrow> bit (0::int) n \<or> n \<in> set ?ins)
          \<and> ((0::int) \<le> 0 \<longrightarrow> 0 \<le> v')"
  proof (rule advance_tied)
    show "distinct ?ins" by simp
    show "\<forall>x \<in> set ?ins. x < length (Tn s) \<and> x < 31 \<and> current (Tn s ! x) \<noteq> None"
      using len n31 P by (auto simp: key_at_def)
    show "length ?P = length (Tn s)" using len by simp
  qed
  then obtain Ts' P' v where adv: "advance ?ins (Tn s) ?P 0 = Some (Ts', P', v)"
    and l': "length Ts' = nway" "length P' = nway"
    and Ts': "\<forall>c<nway. Ts' ! c = (if c \<in> set ?ins then step (Tn s ! c) else Tn s ! c)"
    and P': "\<forall>c<nway. P' ! c = (if c \<in> set ?ins then current (step (Tn s ! c)) else ?P ! c)"
    and bits: "\<forall>n. bit v n \<longleftrightarrow> n \<in> set ?ins"
    and v0: "0 \<le> v"
    using len by auto
  have "imin \<in> set ?ins" using imin by simp
  with bits have "bit v imin" by blast
  then have "v \<noteq> 0" by auto
  with v0 have v1: "1 \<le> v" by simp
  have v2: "v < 2 ^ nway"
    by (rule bit_bound_int [OF v0]) (use bits in auto)
  from v1 v2 lc have idx: "nat (v - 1) < length (comb s)"
    by (simp add: nat_less_iff of_nat_diff)
  let ?s' = "s\<lparr>Tn := Ts', ptr := P', comb := (comb s)[nat (v - 1) := comb s ! nat (v - 1) + 1]\<rparr>"
  have body: "Venn_body kb nway ?c s = Some ?s'"
    using sc adv v1 idx by (simp add: Venn_body_def)
  have P'': "P' = map current Ts'"
  proof (rule nth_equalityI)
    show "length P' = length (map current Ts')" using l' by simp
    fix i assume "i < length P'"
    with l' have i: "i < nway" by simp
    with P' Ts' P len show "P' ! i = map current Ts' ! i"
      using l' by (auto simp: key_at_def)
  qed
  have wf': "\<forall>S \<in> set Ts'. well_formed kb S \<and> cidx S \<le> length (table S)"
  proof
    fix S assume "S \<in> set Ts'"
    then obtain i where i: "i < nway" "S = Ts' ! i"
      using l' by (auto simp: in_set_conv_nth)
    with len have m: "Tn s ! i \<in> set (Tn s)" by simp
    with inv have w: "well_formed kb (Tn s ! i)" "cidx (Tn s ! i) \<le> length (table (Tn s ! i))"
      by (auto simp: venn_inv_def)
    show "well_formed kb S \<and> cidx S \<le> length (table S)"
    proof (cases "i \<in> set ?ins")
      case False
      with i Ts' w show ?thesis by simp
    next
      case True
      then have "key_at ?P i \<noteq> None" by auto
      with P i len have "current (Tn s ! i) \<noteq> None" by (auto simp: key_at_def)
      then have "cidx (Tn s ! i) < length (table (Tn s ! i))"
        by (simp add: current_def split: if_splits)
      with True i Ts' w show ?thesis by simp
    qed
  qed
  have inv': "venn_inv kb nway ?s'"
    using n31 l' P'' wf' lc by (simp add: venn_inv_def)
  have k1: "\<exists>c<nway. key_at ?P c = Some (fst q')"
    using imin by auto
  have t: "\<forall>c<nway. Tn ?s' ! c = (if key_at ?P c = Some (fst q') then step (Tn s ! c) else Tn s ! c)"
    using Ts' by auto
  have b: "\<forall>n. bit v n \<longleftrightarrow> n < nway \<and> key_at ?P n = Some (fst q')"
    using bits by auto
  show ?thesis
    apply (rule exI [of _ ?s'], rule exI [of _ "fst q'"], rule exI [of _ v])
    using body inv' k1 least t v1 v2 b by simp
qed

lemma Venn_loop_done:
  "nway \<le> first_active (ptr s) nway 0 \<Longrightarrow> Venn_loop kb nway s = Some s"
  by (subst Venn_loop.simps) simp

lemma Venn_loop_more:
  "first_active (ptr s) nway 0 < nway \<Longrightarrow>
   Venn_body kb nway (first_active (ptr s) nway 0) s = Some s1 \<Longrightarrow>
   Venn_loop kb nway s = Venn_loop kb nway s1"
  by (subst Venn_loop.simps) (simp add: Let_def)

lemma venn_inv_exhausted:
  assumes "venn_inv kb nway s" and "c < nway" and "ptr s ! c = None"
  shows "cidx (Tn s ! c) = length (table (Tn s ! c))"
proof -
  from assms have "current (Tn s ! c) = None" "cidx (Tn s ! c) \<le> length (table (Tn s ! c))"
    by (auto simp: venn_inv_def)
  then show ?thesis by (simp add: current_None)
qed

lemma Venn_loop_total:
  assumes "venn_inv kb nway s"
  shows "\<exists>s'. Venn_loop kb nway s = Some s' \<and> venn_inv kb nway s' \<and> memn s' = memn s
           \<and> (\<forall>c<nway. ptr s' ! c = None
                 \<and> table (Tn s' ! c) = table (Tn s ! c)
                 \<and> cidx (Tn s' ! c) = length (table (Tn s ! c)))"
  using assms
proof (induction kb nway s rule: Venn_loop.induct)
  case (1 kb nway s)
  let ?c = "first_active (ptr s) nway 0"
  show ?case
  proof (cases "nway \<le> ?c")
    case True
    then have none: "\<forall>c<nway. ptr s ! c = None"
      using first_active_all_None by blast
    with venn_inv_exhausted [OF "1.prems"] Venn_loop_done [OF True, of kb] "1.prems"
    show ?thesis by auto
  next
    case False
    then have act: "?c < nway" by simp
    from Venn_body_step [OF "1.prems" act] obtain s1 kmin where
      b: "Venn_body kb nway ?c s = Some s1" and inv1: "venn_inv kb nway s1"
      and m1: "memn s1 = memn s"
      and t1: "\<forall>c<nway. Tn s1 ! c = (if key_at (ptr s) c = Some kmin then step (Tn s ! c) else Tn s ! c)"
      by blast
    from "1.IH" [OF refl False b inv1] obtain s' where
      l: "Venn_loop kb nway s1 = Some s'" and inv': "venn_inv kb nway s'"
      and m': "memn s' = memn s1"
      and e': "\<forall>c<nway. ptr s' ! c = None
                 \<and> table (Tn s' ! c) = table (Tn s1 ! c)
                 \<and> cidx (Tn s' ! c) = length (table (Tn s1 ! c))"
      by blast
    from t1 have "\<forall>c<nway. table (Tn s1 ! c) = table (Tn s ! c)" by simp
    with Venn_loop_more [OF act b] l inv' m' m1 e' show ?thesis by simp
  qed
qed

definition keys_left :: "Kmer_Stream \<Rightarrow> uint8 list set" where
  "keys_left S = fst ` set (rest S)"

definition pattern_keys :: "Kmer_Stream list \<Rightarrow> int \<Rightarrow> uint8 list set" where
  "pattern_keys Ts v =
     {k. (\<exists>S \<in> set Ts. k \<in> keys_left S) \<and> (\<forall>c<length Ts. bit v c \<longleftrightarrow> k \<in> keys_left (Ts ! c))}"

lemma rest_current_Some: "current S = Some e \<Longrightarrow> rest S = e # rest (step S)"
  by (auto simp: current_def rest_def step_def Cons_nth_drop_Suc split: if_splits)

lemma rest_current_None: "current S = None \<Longrightarrow> rest S = []"
  by (simp add: current_def rest_def split: if_splits)

lemma increasing_rest:
  "increasing S \<Longrightarrow> sorted_wrt (\<lambda>e e'. map unat (fst e) < map unat (fst e')) (rest S)"
  by (simp add: increasing_def rest_def sorted_wrt_drop)

lemma increasing_step [simp]: "increasing (step S) = increasing S"
  by (simp add: increasing_def)

lemma keys_left_head:
  assumes "increasing S" and "current S = Some e"
  shows "keys_left S = insert (fst e) (keys_left (step S))"
    and "\<forall>k \<in> keys_left (step S). map unat (fst e) < map unat k"
proof -
  from rest_current_Some [OF assms(2)] have r: "rest S = e # rest (step S)" .
  then show "keys_left S = insert (fst e) (keys_left (step S))"
    by (simp add: keys_left_def)
  from increasing_rest [OF assms(1)] r
  show "\<forall>k \<in> keys_left (step S). map unat (fst e) < map unat k"
    by (auto simp: keys_left_def)
qed

lemma keys_left_step:
  assumes "increasing S" and "current S = Some e"
  shows "keys_left (step S) = keys_left S - {fst e}"
  using keys_left_head [OF assms] by auto

lemma keys_left_above:
  assumes "increasing S" and "current S = Some e"
    and "fst e \<noteq> kmin" and "\<not> map unat (fst e) < map unat kmin"
  shows "kmin \<notin> keys_left S"
proof
  assume "kmin \<in> keys_left S"
  with keys_left_head [OF assms(1,2)] assms(3) have "map unat (fst e) < map unat kmin"
    by auto
  with assms(4) show False by simp
qed

lemma keys_left_empty: "current S = None \<Longrightarrow> keys_left S = {}"
  by (simp add: keys_left_def rest_current_None)

lemma finite_keys_left [simp]: "finite (keys_left S)"
  by (simp add: keys_left_def)

lemma finite_pattern_keys [simp]: "finite (pattern_keys Ts v)"
proof -
  have "pattern_keys Ts v \<subseteq> (\<Union>S \<in> set Ts. keys_left S)"
    by (auto simp: pattern_keys_def)
  then show ?thesis by (rule finite_subset) simp
qed

text \<open>One pass of the loop takes the minimum key out of every stream.\<close>

lemma step_keys_left:
  assumes inc: "\<forall>S \<in> set Ts. increasing S"
    and len: "length Ts = nway" "length Ts' = nway"
    and P: "P = map current Ts"
    and ex: "\<exists>c<nway. key_at P c = Some kmin"
    and least: "\<forall>c<nway. \<forall>k. key_at P c = Some k \<longrightarrow> \<not> map unat k < map unat kmin"
    and Ts': "\<forall>c<nway. Ts' ! c = (if key_at P c = Some kmin then step (Ts ! c) else Ts ! c)"
    and c: "c < nway"
  shows "keys_left (Ts' ! c) = keys_left (Ts ! c) - {kmin}"
    and "kmin \<in> keys_left (Ts ! c) \<longleftrightarrow> key_at P c = Some kmin"
proof -
  from c len inc have i: "increasing (Ts ! c)" by simp
  from P c len have k: "key_at P c = map_option fst (current (Ts ! c))"
    by (simp add: key_at_def)
  show "keys_left (Ts' ! c) = keys_left (Ts ! c) - {kmin}"
    and "kmin \<in> keys_left (Ts ! c) \<longleftrightarrow> key_at P c = Some kmin"
  proof (atomize (full), cases "current (Ts ! c)")
    case None
    with k Ts' c keys_left_empty [OF None] show
      "keys_left (Ts' ! c) = keys_left (Ts ! c) - {kmin} \<and>
       (kmin \<in> keys_left (Ts ! c) \<longleftrightarrow> key_at P c = Some kmin)" by simp
  next
    case (Some e)
    show "keys_left (Ts' ! c) = keys_left (Ts ! c) - {kmin} \<and>
       (kmin \<in> keys_left (Ts ! c) \<longleftrightarrow> key_at P c = Some kmin)"
    proof (cases "fst e = kmin")
      case True
      with Some k Ts' c keys_left_step [OF i Some] keys_left_head(1) [OF i Some]
      show ?thesis by auto
    next
      case False
      from least c k Some have "\<not> map unat (fst e) < map unat kmin" by simp
      from keys_left_above [OF i Some False this] False Some k Ts' c
      show ?thesis by auto
    qed
  qed
qed

lemma pattern_keys_step:
  assumes inc: "\<forall>S \<in> set Ts. increasing S"
    and len: "length Ts = nway" "length Ts' = nway"
    and P: "P = map current Ts"
    and ex: "\<exists>c<nway. key_at P c = Some kmin"
    and least: "\<forall>c<nway. \<forall>k. key_at P c = Some k \<longrightarrow> \<not> map unat k < map unat kmin"
    and Ts': "\<forall>c<nway. Ts' ! c = (if key_at P c = Some kmin then step (Ts ! c) else Ts ! c)"
    and vs: "0 \<le> vs" "vs < 2 ^ nway" "\<forall>n. bit vs n \<longleftrightarrow> n < nway \<and> key_at P n = Some kmin"
    and v: "0 \<le> v" "v < 2 ^ nway"
  shows "pattern_keys Ts v = (if v = vs then insert kmin (pattern_keys Ts' v) else pattern_keys Ts' v)"
    and "kmin \<notin> pattern_keys Ts' v"
proof -
  note kl = step_keys_left [OF inc len P ex least Ts']
  have ex_conv: "(\<exists>S \<in> set Ts. k \<in> keys_left S) \<longleftrightarrow> (\<exists>c<nway. k \<in> keys_left (Ts ! c))"
    "(\<exists>S \<in> set Ts'. k \<in> keys_left S) \<longleftrightarrow> (\<exists>c<nway. k \<in> keys_left (Ts' ! c))" for k
    using len by (auto simp: in_set_conv_nth) (metis nth_mem)+
  show notin: "kmin \<notin> pattern_keys Ts' v"
    using kl(1) by (auto simp: pattern_keys_def ex_conv)
  have other: "k \<in> pattern_keys Ts v \<longleftrightarrow> k \<in> pattern_keys Ts' v" if "k \<noteq> kmin" for k
  proof -
    have "k \<in> keys_left (Ts' ! c) \<longleftrightarrow> k \<in> keys_left (Ts ! c)" if "c < nway" for c
      using kl(1) [OF that] \<open>k \<noteq> kmin\<close> by simp
    then show ?thesis
      using len by (auto simp: pattern_keys_def ex_conv)
  qed
  have "kmin \<in> pattern_keys Ts v \<longleftrightarrow> (\<forall>c<nway. bit v c \<longleftrightarrow> bit vs c)"
    using kl(2) ex vs(3) len by (auto simp: pattern_keys_def ex_conv)
  also have "\<dots> \<longleftrightarrow> v = vs"
  proof
    assume a: "\<forall>c<nway. bit v c \<longleftrightarrow> bit vs c"
    show "v = vs"
    proof (rule bit_eqI)
      fix n
      show "bit v n \<longleftrightarrow> bit vs n"
        using a bit_high_int [OF v, of n] bit_high_int [OF vs(1,2), of n]
        by (cases "n < nway") auto
    qed
  qed simp
  finally have kmin: "kmin \<in> pattern_keys Ts v \<longleftrightarrow> v = vs" .
  show "pattern_keys Ts v = (if v = vs then insert kmin (pattern_keys Ts' v) else pattern_keys Ts' v)"
    using kmin other notin by (auto; metis)
qed

lemma card_pattern_keys_step:
  assumes inc: "\<forall>S \<in> set Ts. increasing S"
    and len: "length Ts = nway" "length Ts' = nway"
    and P: "P = map current Ts"
    and ex: "\<exists>c<nway. key_at P c = Some kmin"
    and least: "\<forall>c<nway. \<forall>k. key_at P c = Some k \<longrightarrow> \<not> map unat k < map unat kmin"
    and Ts': "\<forall>c<nway. Ts' ! c = (if key_at P c = Some kmin then step (Ts ! c) else Ts ! c)"
    and vs: "0 \<le> vs" "vs < 2 ^ nway" "\<forall>n. bit vs n \<longleftrightarrow> n < nway \<and> key_at P n = Some kmin"
    and v: "0 \<le> v" "v < 2 ^ nway"
  shows "card (pattern_keys Ts v) = card (pattern_keys Ts' v) + (if v = vs then 1 else 0)"
  using pattern_keys_step [OF assms] by auto

lemma Venn_loop_counts:
  assumes "venn_inv kb nway s" and "\<forall>S \<in> set (Tn s). increasing S"
    and "Venn_loop kb nway s = Some s'" and "1 \<le> v" and "v < 2 ^ nway"
  shows "comb s' ! nat (v - 1) = comb s ! nat (v - 1) + int (card (pattern_keys (Tn s) v))"
  using assms
proof (induction kb nway s rule: Venn_loop.induct)
  case (1 kb nway s)
  let ?c = "first_active (ptr s) nway 0"
  from "1.prems"(1) have len: "length (Tn s) = nway" and P: "ptr s = map current (Tn s)"
    by (auto simp: venn_inv_def)
  show ?case
  proof (cases "nway \<le> ?c")
    case True
    then have none: "\<forall>c<nway. ptr s ! c = None"
      using first_active_all_None by blast
    have "keys_left S = {}" if "S \<in> set (Tn s)" for S
    proof -
      from that len obtain c where "c < nway" "S = Tn s ! c"
        by (auto simp: in_set_conv_nth)
      with none P len have "current S = None" by auto
      then show ?thesis by (rule keys_left_empty)
    qed
    then have "pattern_keys (Tn s) v = {}"
      by (auto simp: pattern_keys_def)
    with Venn_loop_done [OF True, of kb] "1.prems" show ?thesis by simp
  next
    case False
    then have act: "?c < nway" by simp
    from Venn_body_step [OF "1.prems"(1) act] obtain s1 kmin vs where
      b: "Venn_body kb nway ?c s = Some s1" and inv1: "venn_inv kb nway s1"
      and ex: "\<exists>c<nway. key_at (ptr s) c = Some kmin"
      and least: "\<forall>c<nway. \<forall>k. key_at (ptr s) c = Some k \<longrightarrow> \<not> map unat k < map unat kmin"
      and t1: "\<forall>c<nway. Tn s1 ! c = (if key_at (ptr s) c = Some kmin then step (Tn s ! c) else Tn s ! c)"
      and vs: "1 \<le> vs" "vs < 2 ^ nway" "\<forall>n. bit vs n \<longleftrightarrow> n < nway \<and> key_at (ptr s) n = Some kmin"
      and c1: "comb s1 = (comb s)[nat (vs - 1) := comb s ! nat (vs - 1) + 1]"
      by blast
    from inv1 have len1: "length (Tn s1) = nway" by (simp add: venn_inv_def)
    have inc1: "\<forall>S \<in> set (Tn s1). increasing S"
    proof
      fix S assume "S \<in> set (Tn s1)"
      with len1 obtain c where c: "c < nway" "S = Tn s1 ! c"
        by (auto simp: in_set_conv_nth)
      with len "1.prems"(2) have "increasing (Tn s ! c)" by simp
      with c t1 show "increasing S" by simp
    qed
    from Venn_loop_more [OF act b] "1.prems"(3) have l: "Venn_loop kb nway s1 = Some s'"
      by simp
    note v1 = "1.prems"(4) and v2 = "1.prems"(5)
    from "1.IH" [OF refl False b inv1 inc1 l v1 v2]
    have ih: "comb s' ! nat (v - 1) = comb s1 ! nat (v - 1) + int (card (pattern_keys (Tn s1) v))" .
    from vs(1) have vs0: "0 \<le> vs" by simp
    from v1 have v0: "0 \<le> v" by simp
    from "1.prems"(1) v1 v2 have idx: "nat (v - 1) < length (comb s)"
      by (simp add: venn_inv_def nat_less_iff of_nat_diff)
    have "comb s1 ! nat (v - 1) = comb s ! nat (v - 1) + (if v = vs then 1 else 0)"
      using c1 idx v1 vs(1) by (auto simp: nth_list_update nat_eq_iff)
    moreover have "card (pattern_keys (Tn s) v) = card (pattern_keys (Tn s1) v) + (if v = vs then 1 else 0)"
      by (rule card_pattern_keys_step [OF "1.prems"(2) len len1 P ex least t1 vs0 vs(2,3) v0 v2])
    ultimately show ?thesis using ih by simp
  qed
qed

definition rewind :: "Kmer_Stream \<Rightarrow> Kmer_Stream" where
  "rewind S = S\<lparr>cidx := 0\<rparr>"

definition table_keys :: "Kmer_Stream \<Rightarrow> uint8 list set" where
  "table_keys S = fst ` set (table S)"

definition keys_of_mask :: "Kmer_Stream list \<Rightarrow> int \<Rightarrow> uint8 list set" where
  "keys_of_mask Ts v =
     {k. (\<exists>S \<in> set Ts. k \<in> table_keys S) \<and> (\<forall>c<length Ts. bit v c \<longleftrightarrow> k \<in> table_keys (Ts ! c))}"

lemma First_Kmer_Entry_rewind: "First_Kmer_Entry S = (rewind S, current (rewind S))"
  by (simp add: First_Kmer_Entry_def rewind_def Let_def)

lemma rewind_simps [simp]:
  "table (rewind S) = table S" "cidx (rewind S) = 0"
  "well_formed kb (rewind S) = well_formed kb S" "increasing (rewind S) = increasing S"
  "keys_left (rewind S) = table_keys S"
  by (simp_all add: rewind_def well_formed_def increasing_def keys_left_def rest_def table_keys_def)

lemma pattern_keys_rewind: "pattern_keys (map rewind Ts) v = keys_of_mask Ts v"
  by (auto simp: pattern_keys_def keys_of_mask_def)

lemma Venn_start:
  assumes "0 < nway" and "length Ts = nway"
  shows "Venn Ts cmb nway m =
           Venn_loop (kbyte (Ts ! 0)) nway
             \<lparr>Tn = map rewind Ts, ptr = map current (map rewind Ts), comb = cmb, memn = m\<rparr>"
  using assms by (simp add: Venn_def Let_def First_Kmer_Entry_rewind comp_def)

lemma venn_inv_start:
  assumes "nway < 31" and "length Ts = nway" and "length cmb = 2 ^ nway - 1"
    and "\<forall>S \<in> set Ts. well_formed kb S"
  shows "venn_inv kb nway \<lparr>Tn = map rewind Ts, ptr = map current (map rewind Ts), comb = cmb, memn = m\<rparr>"
  using assms by (simp add: venn_inv_def)

lemma Venn_total:
  assumes "0 < nway" and "nway < 31" and "length Ts = nway" and "length cmb = 2 ^ nway - 1"
    and "\<forall>S \<in> set Ts. well_formed (kbyte (Ts ! 0)) S"
  shows "\<exists>s. Venn Ts cmb nway m = Some s \<and> memn s = m \<and> length (Tn s) = nway
           \<and> length (ptr s) = nway \<and> length (comb s) = length cmb
           \<and> (\<forall>c<nway. ptr s ! c = None
                 \<and> table (Tn s ! c) = table (Ts ! c)
                 \<and> cidx (Tn s ! c) = length (table (Ts ! c)))"
proof -
  let ?s0 = "\<lparr>Tn = map rewind Ts, ptr = map current (map rewind Ts), comb = cmb, memn = m\<rparr>"
  from Venn_loop_total [OF venn_inv_start [OF assms(2-5), of m]] obtain s where
    s: "Venn_loop (kbyte (Ts ! 0)) nway ?s0 = Some s" "venn_inv (kbyte (Ts ! 0)) nway s"
    "memn s = memn ?s0"
    "\<forall>c<nway. ptr s ! c = None \<and> table (Tn s ! c) = table (Tn ?s0 ! c)
          \<and> cidx (Tn s ! c) = length (table (Tn ?s0 ! c))"
    by blast
  from s(2) assms(4) have "length (Tn s) = nway" "length (ptr s) = nway" "length (comb s) = length cmb"
    by (auto simp: venn_inv_def)
  with s assms(3) Venn_start [OF assms(1,3), of cmb m] show ?thesis by simp
qed

lemma Venn_counts:
  assumes "0 < nway" and "nway < 31" and "length Ts = nway" and "length cmb = 2 ^ nway - 1"
    and "\<forall>S \<in> set Ts. well_formed (kbyte (Ts ! 0)) S"
    and "\<forall>S \<in> set Ts. increasing S"
    and "Venn Ts cmb nway m = Some s" and "1 \<le> v" and "v < 2 ^ nway"
  shows "comb s ! nat (v - 1) = cmb ! nat (v - 1) + int (card (keys_of_mask Ts v))"
proof -
  let ?s0 = "\<lparr>Tn = map rewind Ts, ptr = map current (map rewind Ts), comb = cmb, memn = m\<rparr>"
  have inc: "\<forall>S \<in> set (Tn ?s0). increasing S" using assms(6) by simp
  from assms(7) Venn_start [OF assms(1,3), of cmb m]
  have l: "Venn_loop (kbyte (Ts ! 0)) nway ?s0 = Some s" by simp
  from Venn_loop_counts [OF venn_inv_start [OF assms(2-5), of m] inc l assms(8,9)]
  show ?thesis by (simp add: pattern_keys_rewind)
qed

lemma example_tables_ok:
  "well_formed 1 tabA" "well_formed 1 tabB" "well_formed 1 tabC"
  "increasing tabA" "increasing tabB" "increasing tabC"
  by (simp_all add: well_formed_def increasing_def tabA_def tabB_def tabC_def)

section \<open>What the N-way merge changes\<close>

text \<open>
  Claim C10. The N-way merge writes no histogram counter: whenever \<^verbatim>\<open>Venn\<close> returns, the
  counter memory is the one it was called with. What it changes for the histograms is the
  array \<^verbatim>\<open>comb\<close> of their base pointers. For streams that are well formed and strictly
  increasing (and \<open>nway < 31\<close>, with \<^verbatim>\<open>comb\<close> of \<open>2^nway - 1\<close> entries) the merge does
  return, and the pointer of each mask \<open>v\<close> has moved by one cell for every distinct key
  whose set of streams is \<open>v\<close>: \<open>keys_of_mask Ts v\<close> are the keys that occur in the
  tables, bit \<open>c\<close> of \<open>v\<close> telling whether stream \<open>c\<close> holds the key.
\<close>

theorem Venn_moves_pointers_only:
  "(\<forall>s. Venn Ts cmb nway m = Some s \<longrightarrow> memn s = m)
   \<and> (0 < nway \<and> nway < 31 \<and> length Ts = nway \<and> length cmb = 2 ^ nway - 1
        \<and> (\<forall>S \<in> set Ts. well_formed (kbyte (Ts ! 0)) S \<and> increasing S)
      \<longrightarrow> (\<exists>s. Venn Ts cmb nway m = Some s \<and> memn s = m \<and> length (comb s) = length cmb
             \<and> (\<forall>v. 1 \<le> v \<and> v < 2 ^ nway
                   \<longrightarrow> comb s ! nat (v - 1) = cmb ! nat (v - 1) + int (card (keys_of_mask Ts v)))))"
proof (intro conjI impI allI)
  fix s assume "Venn Ts cmb nway m = Some s"
  then show "memn s = m" by (rule Venn_memn)
next
  assume h: "0 < nway \<and> nway < 31 \<and> length Ts = nway \<and> length cmb = 2 ^ nway - 1
        \<and> (\<forall>S \<in> set Ts. well_formed (kbyte (Ts ! 0)) S \<and> increasing S)"
  then have a: "0 < nway" "nway < 31" "length Ts = nway" "length cmb = 2 ^ nway - 1"
    "\<forall>S \<in> set Ts. well_formed (kbyte (Ts ! 0)) S" "\<forall>S \<in> set Ts. increasing S"
    by auto
  from Venn_total [OF a(1-5), of m] obtain s where
    s: "Venn Ts cmb nway m = Some s" "memn s = m" "length (comb s) = length cmb"
    by blast
  have "\<forall>v. 1 \<le> v \<and> v < 2 ^ nway
          \<longrightarrow> comb s ! nat (v - 1) = cmb ! nat (v - 1) + int (card (keys_of_mask Ts v))"
    using Venn_counts [OF a s(1)] by blast
  with s show "\<exists>s. Venn Ts cmb nway m = Some s \<and> memn s = m \<and> length (comb s) = length cmb
             \<and> (\<forall>v. 1 \<le> v \<and> v < 2 ^ nway
                   \<longrightarrow> comb s ! nat (v - 1) = cmb ! nat (v - 1) + int (card (keys_of_mask Ts v)))"
    by blast
qed

theorem Venn_moves_pointers_only_witness:
  "\<exists>s. Venn [tabA, tabB, tabC] [- 1, 0, 1, 2, 3, 4, 5] 3 (\<lambda>_. 0) = Some s
      \<and> memn s = (\<lambda>_. 0)
      \<and> comb s ! 6 = 5 + int (card (keys_of_mask [tabA, tabB, tabC] 7))"
proof -
  have k: "kbyte ([tabA, tabB, tabC] ! 0) = 1" by (simp add: tabA_def)
  have h: "0 < (3::nat) \<and> (3::nat) < 31 \<and> length [tabA, tabB, tabC] = 3
        \<and> length [- 1, 0, 1, 2, 3, 4, 5 :: int] = 2 ^ 3 - 1
        \<and> (\<forall>S \<in> set [tabA, tabB, tabC]. well_formed (kbyte ([tabA, tabB, tabC] ! 0)) S \<and> increasing S)"
    unfolding k using example_tables_ok by simp
  from Venn_moves_pointers_only [of "[tabA, tabB, tabC]" "[- 1, 0, 1, 2, 3, 4, 5]" 3 "\<lambda>_. 0"] h
  obtain s where s: "Venn [tabA, tabB, tabC] [- 1, 0, 1, 2, 3, 4, 5] 3 (\<lambda>_. 0) = Some s"
    "memn s = (\<lambda>_. 0)"
    "\<forall>v. 1 \<le> v \<and> v < 2 ^ 3
        \<longrightarrow> comb s ! nat (v - 1) = [- 1, 0, 1, 2, 3, 4, 5] ! nat (v - 1) + int (card (keys_of_mask [tabA, tabB, tabC] v))"
    by blast
  from spec [OF s(3), of 7]
  have "comb s ! nat (7 - 1) = [- 1, 0, 1, 2, 3, 4, 5 :: int] ! nat (7 - 1)
          + int (card (keys_of_mask [tabA, tabB, tabC] 7))"
    by simp
  moreover have "nat (7 - 1) = 6" "[- 1, 0, 1, 2, 3, 4, 5 :: int] ! 6 = 5"
    by (simp_all add: numeral_eq_Suc)
  ultimately have "comb s ! 6 = 5 + int (card (keys_of_mask [tabA, tabB, tabC] 7))"
    by simp
  with s(1,2) show ?thesis by blast
qed

section \<open>The 2-way merge against its specification\<close>

text \<open>
  The specification of the 2-way merge, in its own words: a contributed count goes to the
  bin \<open>clamp LOW HGH c\<close> ("values \<open>c \<le> LOW\<close> accumulate into bin \<open>LOW\<close>; \<open>c \<ge> HIGH\<close>
  accumulate into bin \<open>HIGH\<close>; otherwise accumulate into bin \<open>c\<close>"); a key of both tables
  contributes the minimum of its two counts to the intersection histogram, a key of one
  table only contributes its count to the histogram of that table. \<open>venn2_targets\<close> lists
  the cells that receive an increment: for the histogram pointers \<open>cmb\<close> (A only, B only,
  intersection) and the tables \<open>As\<close>, \<open>Bs\<close>, one cell per distinct key.
\<close>

definition clamp :: "int \<Rightarrow> int \<Rightarrow> int \<Rightarrow> int" where
  "clamp LOW HGH c = (if c \<le> LOW then LOW else if HGH \<le> c then HGH else c)"

lemma clamp_max_min: "LOW \<le> HGH \<Longrightarrow> clamp LOW HGH c = max LOW (min HGH c)"
  by (simp add: clamp_def)

definition inter_targets :: "int \<Rightarrow> int \<Rightarrow> addr \<Rightarrow> entry list \<Rightarrow> entry list \<Rightarrow> addr list" where
  "inter_targets LOW HGH h As Bs =
     concat (map (\<lambda>e. map (\<lambda>e'. h + clamp LOW HGH (min (COUNT_OF e) (COUNT_OF e')))
                         (filter (\<lambda>e'. fst e' = fst e) Bs)) As)"

definition only_targets :: "int \<Rightarrow> int \<Rightarrow> addr \<Rightarrow> entry list \<Rightarrow> entry list \<Rightarrow> addr list" where
  "only_targets LOW HGH h As Bs =
     map (\<lambda>e. h + clamp LOW HGH (COUNT_OF e)) (filter (\<lambda>e. fst e \<notin> fst ` set Bs) As)"

definition venn2_targets :: "int \<Rightarrow> int \<Rightarrow> addr list \<Rightarrow> entry list \<Rightarrow> entry list \<Rightarrow> addr list" where
  "venn2_targets LOW HGH cmb As Bs =
     only_targets LOW HGH (cmb ! 0) As Bs @ only_targets LOW HGH (cmb ! 1) Bs As
     @ inter_targets LOW HGH (cmb ! 2) As Bs"

abbreviation key_lt :: "entry \<Rightarrow> entry \<Rightarrow> bool" where
  "key_lt e e' \<equiv> map unat (fst e) < map unat (fst e')"

lemma key_lt_neq: "key_lt e e' \<Longrightarrow> fst e \<noteq> fst e'"
  by auto

lemma sorted_head_notin:
  assumes "sorted_wrt key_lt (e' # Bs)" and "key_lt e e'"
  shows "fst e \<notin> fst ` set (e' # Bs)"
proof (rule notI, elim imageE)
  fix x assume x: "fst e = fst x" "x \<in> set (e' # Bs)"
  from assms(1) have "\<forall>y \<in> set Bs. key_lt e' y" by simp
  with x(2) have "x = e' \<or> key_lt e' x" by auto
  then show False
  proof
    assume "x = e'"
    with assms(2) x(1) show False by simp
  next
    assume "key_lt e' x"
    with assms(2) have "key_lt e x" by (rule less_trans)
    with x(1) show False by simp
  qed
qed

lemma sorted_tail_notin:
  assumes "sorted_wrt key_lt (e # As)"
  shows "fst e \<notin> fst ` set As"
  using assms by auto

lemma inter_targets_Nil [simp]:
  "inter_targets LOW HGH h [] Bs = []" "inter_targets LOW HGH h As [] = []"
  by (simp_all add: inter_targets_def)

lemma only_targets_Nil [simp]:
  "only_targets LOW HGH h [] Bs = []"
  "only_targets LOW HGH h As [] = map (\<lambda>e. h + clamp LOW HGH (COUNT_OF e)) As"
  by (simp_all add: only_targets_def)

lemma filter_key_notin: "k \<notin> fst ` set Bs \<Longrightarrow> filter (\<lambda>e'. fst e' = k) Bs = []"
  by (auto simp: filter_empty_conv)

lemma inter_targets_skip_left:
  "fst e \<notin> fst ` set Bs \<Longrightarrow> inter_targets LOW HGH h (e # As) Bs = inter_targets LOW HGH h As Bs"
  by (simp add: inter_targets_def filter_key_notin)

lemma inter_targets_skip_right:
  "fst e' \<notin> fst ` set As \<Longrightarrow> inter_targets LOW HGH h As (e' # Bs) = inter_targets LOW HGH h As Bs"
  by (induction As) (simp_all add: inter_targets_def)

lemma inter_targets_both:
  assumes "fst e' = fst e" and "fst e \<notin> fst ` set As" and "fst e \<notin> fst ` set Bs"
  shows "inter_targets LOW HGH h (e # As) (e' # Bs) =
           (h + clamp LOW HGH (min (COUNT_OF e) (COUNT_OF e'))) # inter_targets LOW HGH h As Bs"
proof -
  have "inter_targets LOW HGH h (e # As) (e' # Bs) =
          (h + clamp LOW HGH (min (COUNT_OF e) (COUNT_OF e'))) # inter_targets LOW HGH h As (e' # Bs)"
    using assms by (simp add: inter_targets_def filter_key_notin)
  with inter_targets_skip_right [of e' As] assms show ?thesis by simp
qed

lemma only_targets_skip_right:
  assumes "fst e' \<notin> fst ` set As"
  shows "only_targets LOW HGH h As (e' # Bs) = only_targets LOW HGH h As Bs"
proof -
  have "fst e \<notin> fst ` set (e' # Bs) \<longleftrightarrow> fst e \<notin> fst ` set Bs" if "e \<in> set As" for e
  proof -
    from that assms have "fst e \<noteq> fst e'" by (metis imageI)
    then show ?thesis by simp
  qed
  then have "filter (\<lambda>e. fst e \<notin> fst ` set (e' # Bs)) As = filter (\<lambda>e. fst e \<notin> fst ` set Bs) As"
    by (intro filter_cong refl)
  then show ?thesis by (simp only: only_targets_def)
qed

lemma only_targets_take:
  "fst e \<notin> fst ` set Bs \<Longrightarrow>
   only_targets LOW HGH h (e # As) Bs = (h + clamp LOW HGH (COUNT_OF e)) # only_targets LOW HGH h As Bs"
  by (simp add: only_targets_def)

lemma only_targets_drop:
  "fst e \<in> fst ` set Bs \<Longrightarrow> only_targets LOW HGH h (e # As) Bs = only_targets LOW HGH h As Bs"
  by (simp add: only_targets_def)

lemma targets_eq:
  assumes "sorted_wrt key_lt (e # As)" and "sorted_wrt key_lt (e' # Bs)" and "fst e = fst e'"
  shows "count_list (venn2_targets LOW HGH cmb (e # As) (e' # Bs)) x =
           (if x = cmb ! 2 + clamp LOW HGH (min (COUNT_OF e) (COUNT_OF e')) then 1 else 0)
           + count_list (venn2_targets LOW HGH cmb As Bs) x"
proof -
  from sorted_tail_notin [OF assms(1)] sorted_tail_notin [OF assms(2)] assms(3)
  have a: "fst e \<notin> fst ` set As" "fst e \<notin> fst ` set Bs" "fst e' \<notin> fst ` set As"
    "fst e' \<notin> fst ` set Bs"
    by simp_all
  have 1: "only_targets LOW HGH h (e # As) (e' # Bs) = only_targets LOW HGH h As Bs" for h
    using a assms(3) only_targets_skip_right [of e' As LOW HGH h Bs]
      only_targets_drop [of e "e' # Bs" LOW HGH h As] by simp
  have 2: "only_targets LOW HGH h (e' # Bs) (e # As) = only_targets LOW HGH h Bs As" for h
    using a assms(3) only_targets_skip_right [of e Bs LOW HGH h As]
      only_targets_drop [of e' "e # As" LOW HGH h Bs] by simp
  show ?thesis
    using inter_targets_both [of e' e As Bs LOW HGH "cmb ! 2"] a assms(3)
    by (simp add: venn2_targets_def 1 2)
qed

lemma targets_lt:
  assumes "sorted_wrt key_lt (e # As)" and "sorted_wrt key_lt (e' # Bs)" and "key_lt e e'"
  shows "count_list (venn2_targets LOW HGH cmb (e # As) (e' # Bs)) x =
           (if x = cmb ! 0 + clamp LOW HGH (COUNT_OF e) then 1 else 0)
           + count_list (venn2_targets LOW HGH cmb As (e' # Bs)) x"
proof -
  have n: "fst e \<notin> fst ` set (e' # Bs)"
    by (rule sorted_head_notin [OF assms(2,3)])
  show ?thesis
    using only_targets_take [OF n, of LOW HGH "cmb ! 0" As]
      only_targets_skip_right [of e "e' # Bs" LOW HGH "cmb ! 1" As]
      inter_targets_skip_left [OF n, of LOW HGH "cmb ! 2" As] n
    by (simp add: venn2_targets_def)
qed

lemma targets_gt:
  assumes "sorted_wrt key_lt (e # As)" and "sorted_wrt key_lt (e' # Bs)" and "key_lt e' e"
  shows "count_list (venn2_targets LOW HGH cmb (e # As) (e' # Bs)) x =
           (if x = cmb ! 1 + clamp LOW HGH (COUNT_OF e') then 1 else 0)
           + count_list (venn2_targets LOW HGH cmb (e # As) Bs) x"
proof -
  have n: "fst e' \<notin> fst ` set (e # As)"
    by (rule sorted_head_notin [OF assms(1,3)])
  show ?thesis
    using only_targets_take [OF n, of LOW HGH "cmb ! 1" Bs]
      only_targets_skip_right [of e' "e # As" LOW HGH "cmb ! 0" Bs]
      inter_targets_skip_right [of e' "e # As" LOW HGH "cmb ! 2" Bs] n
    by (simp add: venn2_targets_def)
qed

lemma targets_left_empty:
  "venn2_targets LOW HGH cmb [] Bs = map (\<lambda>e. cmb ! 1 + clamp LOW HGH (COUNT_OF e)) Bs"
  by (simp add: venn2_targets_def)

lemma targets_right_empty:
  "venn2_targets LOW HGH cmb As [] = map (\<lambda>e. cmb ! 0 + clamp LOW HGH (COUNT_OF e)) As"
  by (simp add: venn2_targets_def)

definition venn2_inv :: "int \<Rightarrow> venn2_vars \<Rightarrow> bool" where
  "venn2_inv kb s \<longleftrightarrow>
     length (Tv s) = 2 \<and> curT s = 0 \<and> curU s = 1
     \<and> iptr s = current (Tv s ! 0) \<and> jptr s = current (Tv s ! 1)
     \<and> (\<forall>S \<in> set (Tv s). well_formed kb S \<and> increasing S \<and> cidx S \<le> length (table S))"

definition drain_inv :: "venn2_vars \<Rightarrow> bool" where
  "drain_inv s \<longleftrightarrow>
     curT s < length (Tv s) \<and> iptr s = current (Tv s ! curT s)
     \<and> cidx (Tv s ! curT s) \<le> length (table (Tv s ! curT s))"

lemma Venn2_body_update:
  assumes "Venn2_select kb s = Some (h, c, s1)"
  shows "Venn2_body LOW HGH kb s =
           Some (s1\<lparr>mem := (mem s1)(h + clamp LOW HGH c := mem s1 (h + clamp LOW HGH c) + 1)\<rparr>)"
  using assms by (auto simp: Venn2_body_def clamp_def)

lemma drain_body_update:
  assumes "iptr s = Some e" and "curT s < length (Tv s)" and "iptr s = current (Tv s ! curT s)"
  shows "drain_body LOW HGH s =
           Some (s\<lparr>Tv := (Tv s)[curT s := step (Tv s ! curT s)],
                   iptr := current (step (Tv s ! curT s)),
                   mem := (mem s)(AminB s + clamp LOW HGH (COUNT_OF e) :=
                                    mem s (AminB s + clamp LOW HGH (COUNT_OF e)) + 1)\<rparr>)"
proof -
  from assms have "Next_at (Tv s) (curT s) =
      Some ((Tv s)[curT s := step (Tv s ! curT s)], current (step (Tv s ! curT s)))"
    by (intro Next_at_Some) auto
  with assms(1) show ?thesis
    by (auto simp: drain_body_def Let_def clamp_def)
qed

lemma Venn2_drain_total:
  assumes "drain_inv s"
  shows "\<exists>s'. Venn2_drain LOW HGH s = Some s' \<and> iptr s' = None
           \<and> Tv s' = (Tv s)[curT s := (Tv s ! curT s)\<lparr>cidx := length (table (Tv s ! curT s))\<rparr>]
           \<and> (\<forall>x. mem s' x = mem s x
                + of_nat (count_list (map (\<lambda>e. AminB s + clamp LOW HGH (COUNT_OF e))
                                          (rest (Tv s ! curT s))) x))"
  using assms
proof (induction LOW HGH s rule: Venn2_drain.induct)
  case (1 LOW HGH s)
  let ?S = "Tv s ! curT s"
  from "1.prems" have c: "curT s < length (Tv s)" and ip: "iptr s = current ?S"
    and le: "cidx ?S \<le> length (table ?S)"
    by (auto simp: drain_inv_def)
  show ?case
  proof (cases "iptr s")
    case None
    with ip have "current ?S = None" by simp
    with le have e: "cidx ?S = length (table ?S)" and r: "rest ?S = []"
      by (auto simp: current_None rest_current_None)
    have "?S\<lparr>cidx := length (table ?S)\<rparr> = ?S"
      using e by simp
    with None r show ?thesis
      by (subst Venn2_drain.simps) simp
  next
    case (Some e)
    let ?s1 = "s\<lparr>Tv := (Tv s)[curT s := step ?S], iptr := current (step ?S),
                  mem := (mem s)(AminB s + clamp LOW HGH (COUNT_OF e) :=
                                   mem s (AminB s + clamp LOW HGH (COUNT_OF e)) + 1)\<rparr>"
    have b: "drain_body LOW HGH s = Some ?s1"
      by (rule drain_body_update [OF Some c ip])
    from Some ip have cur: "current ?S = Some e" by simp
    then have lt: "cidx ?S < length (table ?S)"
      by (simp add: current_def split: if_splits)
    have r: "rest ?S = e # rest (step ?S)"
      by (rule rest_current_Some [OF cur])
    have inv1: "drain_inv ?s1"
      using c lt by (simp add: drain_inv_def)
    from "1.IH" [OF _ b inv1] Some obtain s' where
      d: "Venn2_drain LOW HGH ?s1 = Some s'" and n: "iptr s' = None"
      and t: "Tv s' = (Tv ?s1)[curT ?s1 := (Tv ?s1 ! curT ?s1)\<lparr>cidx := length (table (Tv ?s1 ! curT ?s1))\<rparr>]"
      and m: "\<forall>x. mem s' x = mem ?s1 x
                + of_nat (count_list (map (\<lambda>e. AminB ?s1 + clamp LOW HGH (COUNT_OF e))
                                          (rest (Tv ?s1 ! curT ?s1))) x)"
      by auto
    have "Venn2_drain LOW HGH s = Some s'"
      using Some b d by (subst Venn2_drain.simps) simp
    moreover have "Tv s' = (Tv s)[curT s := ?S\<lparr>cidx := length (table ?S)\<rparr>]"
      using t c by (simp add: step_def)
    moreover have "\<forall>x. mem s' x = mem s x
                + of_nat (count_list (map (\<lambda>e. AminB s + clamp LOW HGH (COUNT_OF e)) (rest ?S)) x)"
      using m c r by simp
    ultimately show ?thesis using n by simp
  qed
qed

lemma venn2_inv_facts:
  assumes "venn2_inv kb s"
  shows "length (Tv s) = 2" "curT s = 0" "curU s = 1"
    "iptr s = current (Tv s ! 0)" "jptr s = current (Tv s ! 1)"
    "well_formed kb (Tv s ! 0)" "well_formed kb (Tv s ! 1)"
    "increasing (Tv s ! 0)" "increasing (Tv s ! 1)"
    "cidx (Tv s ! 0) \<le> length (table (Tv s ! 0))" "cidx (Tv s ! 1) \<le> length (table (Tv s ! 1))"
  using assms by (auto simp: venn2_inv_def)

lemma venn2_invI:
  assumes "length (Tv s) = 2" "curT s = 0" "curU s = 1"
    "iptr s = current (Tv s ! 0)" "jptr s = current (Tv s ! 1)"
    "well_formed kb (Tv s ! 0)" "well_formed kb (Tv s ! 1)"
    "increasing (Tv s ! 0)" "increasing (Tv s ! 1)"
    "cidx (Tv s ! 0) \<le> length (table (Tv s ! 0))" "cidx (Tv s ! 1) \<le> length (table (Tv s ! 1))"
  shows "venn2_inv kb s"
proof -
  from assms(1) obtain A B where "Tv s = [A, B]"
    by (cases "Tv s"; cases "tl (Tv s)") auto
  with assms show ?thesis by (simp add: venn2_inv_def)
qed

lemma Venn2_select_cases:
  assumes inv: "venn2_inv kb s" and ip: "iptr s = Some e" and jp: "jptr s = Some e'"
  shows "Venn2_select kb s =
     (if fst e = fst e' then
        Some (Inter_hist s, min (COUNT_OF e) (COUNT_OF e'),
              s\<lparr>Tv := (Tv s)[0 := step (Tv s ! 0), 1 := step (Tv s ! 1)],
                iptr := current (step (Tv s ! 0)), jptr := current (step (Tv s ! 1))\<rparr>)
      else if key_lt e e' then
        Some (AminB s, COUNT_OF e,
              s\<lparr>Tv := (Tv s)[0 := step (Tv s ! 0)], iptr := current (step (Tv s ! 0))\<rparr>)
      else
        Some (BminA s, COUNT_OF e',
              s\<lparr>Tv := (Tv s)[1 := step (Tv s ! 1)], jptr := current (step (Tv s ! 1))\<rparr>))"
proof -
  note f = venn2_inv_facts [OF inv]
  from ip jp f have c0: "current (Tv s ! 0) = Some e" and c1: "current (Tv s ! 1) = Some e'"
    by simp_all
  from current_Some_mem [OF c0] current_Some_mem [OF c1] f(6,7)
  have l: "0 \<le> kb" "int (length (fst e)) = kb" "int (length (fst e')) = kb"
    by (auto simp: well_formed_def)
  have cmp: "mycmp (fst e) (fst e') kb =
      Some (if key_lt e e' then - 1 else if fst e = fst e' then 0 else 1)"
    by (rule mycmp_wf [OF l])
  have n0: "Next_at (Tv s) 0 = Some ((Tv s)[0 := step (Tv s ! 0)], current (step (Tv s ! 0)))"
    using f(1) c0 by (intro Next_at_Some) auto
  have n1: "Next_at (Tv s) 1 = Some ((Tv s)[1 := step (Tv s ! 1)], current (step (Tv s ! 1)))"
    using f(1) c1 by (intro Next_at_Some) auto
  have n01: "Next_at ((Tv s)[0 := step (Tv s ! 0)]) 1 =
      Some ((Tv s)[0 := step (Tv s ! 0), 1 := step (Tv s ! 1)], current (step (Tv s ! 1)))"
    using f(1) c1 Next_at_Some [of 1 "(Tv s)[0 := step (Tv s ! 0)]"] by simp
  show ?thesis
    using ip jp cmp n0 n1 n01 f(2,3)
    by (auto simp: Venn2_select_def Let_def min_def)
qed

lemma Venn2_loop_exit_i:
  "iptr s = None \<Longrightarrow>
   Venn2_loop LOW HGH kb s = Some (s\<lparr>curT := curU s, iptr := jptr s, AminB := BminA s\<rparr>)"
  by (subst Venn2_loop.simps) simp

lemma Venn2_loop_exit_j:
  "iptr s = Some e \<Longrightarrow> jptr s = None \<Longrightarrow> Venn2_loop LOW HGH kb s = Some s"
  by (subst Venn2_loop.simps) simp

lemma Venn2_loop_more:
  "iptr s = Some e \<Longrightarrow> jptr s = Some e' \<Longrightarrow> Venn2_body LOW HGH kb s = Some s1 \<Longrightarrow>
   Venn2_loop LOW HGH kb s = Venn2_loop LOW HGH kb s1"
  by (subst Venn2_loop.simps) simp


lemma Venn2_loop_total:
  assumes "venn2_inv kb s"
  shows "\<exists>s1. Venn2_loop LOW HGH kb s = Some s1
      \<and> length (Tv s1) = 2 \<and> curT s1 < 2 \<and> drain_inv s1
      \<and> (\<forall>c<2. table (Tv s1 ! c) = table (Tv s ! c)
              \<and> cidx (Tv s ! c) \<le> cidx (Tv s1 ! c)
              \<and> cidx (Tv s1 ! c) \<le> length (table (Tv s ! c)))
      \<and> cidx (Tv s1 ! (1 - curT s1)) = length (table (Tv s ! (1 - curT s1)))
      \<and> (\<forall>x. mem s1 x + of_nat (count_list (map (\<lambda>e. AminB s1 + clamp LOW HGH (COUNT_OF e))
                                                  (rest (Tv s1 ! curT s1))) x)
               = mem s x + of_nat (count_list (venn2_targets LOW HGH [AminB s, BminA s, Inter_hist s]
                                                  (rest (Tv s ! 0)) (rest (Tv s ! 1))) x))"
  using assms
proof (induction LOW HGH kb s rule: Venn2_loop.induct)
  case (1 LOW HGH kb s)
  note f = venn2_inv_facts [OF "1.prems"]
  let ?cmb = "[AminB s, BminA s, Inter_hist s]"
  show ?case
  proof (cases "iptr s")
    case None
    let ?s1 = "s\<lparr>curT := curU s, iptr := jptr s, AminB := BminA s\<rparr>"
    from None f have e0: "cidx (Tv s ! 0) = length (table (Tv s ! 0))" and r0: "rest (Tv s ! 0) = []"
      by (auto simp: current_None rest_current_None)
    have "drain_inv ?s1" using f by (simp add: drain_inv_def)
    with Venn2_loop_exit_i [OF None, of LOW HGH kb] f e0 r0 show ?thesis
      by (simp add: targets_left_empty less_Suc_eq numeral_2_eq_2)
  next
    case (Some e)
    note ip = Some
    show ?thesis
    proof (cases "jptr s")
      case None
      from None f have e1: "cidx (Tv s ! 1) = length (table (Tv s ! 1))" and r1: "rest (Tv s ! 1) = []"
        by (auto simp: current_None rest_current_None)
      have "drain_inv s" using f by (simp add: drain_inv_def)
      with Venn2_loop_exit_j [OF ip None, of LOW HGH kb] f e1 r1 show ?thesis
        by (simp add: targets_right_empty less_Suc_eq numeral_2_eq_2)
    next
      case (Some e')
      note jp = Some
      from ip jp f have c0: "current (Tv s ! 0) = Some e" and c1: "current (Tv s ! 1) = Some e'"
        by simp_all
      then have lt: "cidx (Tv s ! 0) < length (table (Tv s ! 0))"
        "cidx (Tv s ! 1) < length (table (Tv s ! 1))"
        by (simp_all add: current_def split: if_splits)
      have r: "rest (Tv s ! 0) = e # rest (step (Tv s ! 0))"
        "rest (Tv s ! 1) = e' # rest (step (Tv s ! 1))"
        using c0 c1 by (simp_all add: rest_current_Some)
      from increasing_rest [OF f(8)] increasing_rest [OF f(9)] r
      have so: "sorted_wrt key_lt (e # rest (step (Tv s ! 0)))"
        "sorted_wrt key_lt (e' # rest (step (Tv s ! 1)))"
        by simp_all
      obtain h c s0 where sel: "Venn2_select kb s = Some (h, c, s0)"
        and inv0: "venn2_inv kb s0" and same: "AminB s0 = AminB s" "BminA s0 = BminA s"
          "Inter_hist s0 = Inter_hist s" "mem s0 = mem s"
        and tab: "\<forall>c<2. table (Tv s0 ! c) = table (Tv s ! c)
              \<and> cidx (Tv s ! c) \<le> cidx (Tv s0 ! c)"
        and cnt: "\<forall>x. count_list (venn2_targets LOW HGH ?cmb (rest (Tv s ! 0)) (rest (Tv s ! 1))) x
            = (if x = h + clamp LOW HGH c then 1 else 0)
              + count_list (venn2_targets LOW HGH ?cmb (rest (Tv s0 ! 0)) (rest (Tv s0 ! 1))) x"
      proof (cases "fst e = fst e'")
        case True
        let ?s0 = "s\<lparr>Tv := (Tv s)[0 := step (Tv s ! 0), 1 := step (Tv s ! 1)],
                iptr := current (step (Tv s ! 0)), jptr := current (step (Tv s ! 1))\<rparr>"
        show ?thesis
        proof (rule that [of "Inter_hist s" "min (COUNT_OF e) (COUNT_OF e')" ?s0])
          show "Venn2_select kb s = Some (Inter_hist s, min (COUNT_OF e) (COUNT_OF e'), ?s0)"
            using Venn2_select_cases [OF "1.prems" ip jp] True by simp
          show "venn2_inv kb ?s0"
            using f lt by (intro venn2_invI) simp_all
          show "\<forall>c<2. table (Tv ?s0 ! c) = table (Tv s ! c) \<and> cidx (Tv s ! c) \<le> cidx (Tv ?s0 ! c)"
            using f(1) by (simp add: less_Suc_eq numeral_2_eq_2)
          show "\<forall>x. count_list (venn2_targets LOW HGH ?cmb (rest (Tv s ! 0)) (rest (Tv s ! 1))) x
            = (if x = Inter_hist s + clamp LOW HGH (min (COUNT_OF e) (COUNT_OF e')) then 1 else 0)
              + count_list (venn2_targets LOW HGH ?cmb (rest (Tv ?s0 ! 0)) (rest (Tv ?s0 ! 1))) x"
            using targets_eq [OF so True, of LOW HGH ?cmb] r f(1) by simp
        qed simp_all
      next
        case False
        show ?thesis
        proof (cases "key_lt e e'")
          case True
          let ?s0 = "s\<lparr>Tv := (Tv s)[0 := step (Tv s ! 0)], iptr := current (step (Tv s ! 0))\<rparr>"
          show ?thesis
          proof (rule that [of "AminB s" "COUNT_OF e" ?s0])
            show "Venn2_select kb s = Some (AminB s, COUNT_OF e, ?s0)"
              using Venn2_select_cases [OF "1.prems" ip jp] True False by simp
            show "venn2_inv kb ?s0"
              using f lt by (intro venn2_invI) simp_all
            show "\<forall>c<2. table (Tv ?s0 ! c) = table (Tv s ! c) \<and> cidx (Tv s ! c) \<le> cidx (Tv ?s0 ! c)"
              using f(1) by (simp add: less_Suc_eq numeral_2_eq_2)
            show "\<forall>x. count_list (venn2_targets LOW HGH ?cmb (rest (Tv s ! 0)) (rest (Tv s ! 1))) x
              = (if x = AminB s + clamp LOW HGH (COUNT_OF e) then 1 else 0)
                + count_list (venn2_targets LOW HGH ?cmb (rest (Tv ?s0 ! 0)) (rest (Tv ?s0 ! 1))) x"
              using targets_lt [OF so True, of LOW HGH ?cmb] r f(1) by simp
          qed simp_all
        next
          case nlt: False
          from False nlt have gt: "key_lt e' e"
            using map_unat_inj [of "fst e" "fst e'"] by (metis linorder_less_linear)
          let ?s0 = "s\<lparr>Tv := (Tv s)[1 := step (Tv s ! 1)], jptr := current (step (Tv s ! 1))\<rparr>"
          show ?thesis
          proof (rule that [of "BminA s" "COUNT_OF e'" ?s0])
            show "Venn2_select kb s = Some (BminA s, COUNT_OF e', ?s0)"
              using Venn2_select_cases [OF "1.prems" ip jp] nlt False by simp
            show "venn2_inv kb ?s0"
              using f lt by (intro venn2_invI) simp_all
            show "\<forall>c<2. table (Tv ?s0 ! c) = table (Tv s ! c) \<and> cidx (Tv s ! c) \<le> cidx (Tv ?s0 ! c)"
              using f(1) by (simp add: less_Suc_eq numeral_2_eq_2)
            show "\<forall>x. count_list (venn2_targets LOW HGH ?cmb (rest (Tv s ! 0)) (rest (Tv s ! 1))) x
              = (if x = BminA s + clamp LOW HGH (COUNT_OF e') then 1 else 0)
                + count_list (venn2_targets LOW HGH ?cmb (rest (Tv ?s0 ! 0)) (rest (Tv ?s0 ! 1))) x"
              using targets_gt [OF so gt, of LOW HGH ?cmb] r f(1) by simp
          qed simp_all
        qed
      qed
      let ?s' = "s0\<lparr>mem := (mem s0)(h + clamp LOW HGH c := mem s0 (h + clamp LOW HGH c) + 1)\<rparr>"
      have b: "Venn2_body LOW HGH kb s = Some ?s'"
        by (rule Venn2_body_update [OF sel])
      have inv': "venn2_inv kb ?s'"
        using inv0 by (simp add: venn2_inv_def)
      from "1.IH" [OF _ _ b inv'] ip jp obtain s1 where
        l: "Venn2_loop LOW HGH kb ?s' = Some s1"
        and p: "length (Tv s1) = 2" "curT s1 < 2" "drain_inv s1"
        and t: "\<forall>c<2. table (Tv s1 ! c) = table (Tv ?s' ! c)
              \<and> cidx (Tv ?s' ! c) \<le> cidx (Tv s1 ! c)
              \<and> cidx (Tv s1 ! c) \<le> length (table (Tv ?s' ! c))"
        and o: "cidx (Tv s1 ! (1 - curT s1)) = length (table (Tv ?s' ! (1 - curT s1)))"
        and m: "\<forall>x. mem s1 x + of_nat (count_list (map (\<lambda>e. AminB s1 + clamp LOW HGH (COUNT_OF e))
                                                  (rest (Tv s1 ! curT s1))) x)
               = mem ?s' x + of_nat (count_list (venn2_targets LOW HGH [AminB ?s', BminA ?s', Inter_hist ?s']
                                                  (rest (Tv ?s' ! 0)) (rest (Tv ?s' ! 1))) x)"
        by auto
      have l': "Venn2_loop LOW HGH kb s = Some s1"
        using Venn2_loop_more [OF ip jp b] l by simp
      have t': "\<forall>c<2. table (Tv s1 ! c) = table (Tv s ! c)
              \<and> cidx (Tv s ! c) \<le> cidx (Tv s1 ! c)
              \<and> cidx (Tv s1 ! c) \<le> length (table (Tv s ! c))"
        using t tab by (auto intro: order_trans)
      have o': "cidx (Tv s1 ! (1 - curT s1)) = length (table (Tv s ! (1 - curT s1)))"
        using o tab p(2) by simp
      have m': "\<forall>x. mem s1 x + of_nat (count_list (map (\<lambda>e. AminB s1 + clamp LOW HGH (COUNT_OF e))
                                                  (rest (Tv s1 ! curT s1))) x)
               = mem s x + of_nat (count_list (venn2_targets LOW HGH ?cmb
                                                  (rest (Tv s ! 0)) (rest (Tv s ! 1))) x)"
        using m cnt same by simp
      from l' p t' o' m' show ?thesis by blast
    qed
  qed
qed

definition Venn2_start :: "Kmer_Stream list \<Rightarrow> addr list \<Rightarrow> store \<Rightarrow> venn2_vars" where
  "Venn2_start Ts cmb m =
     \<lparr>Tv = [rewind (Ts ! 0), rewind (Ts ! 1)], curT = 0, curU = 1,
      AminB = cmb ! 0, BminA = cmb ! 1, Inter_hist = cmb ! 2,
      iptr = current (rewind (Ts ! 0)), jptr = current (rewind (Ts ! 1)), mem = m\<rparr>"

lemma list2: "length Ts = 2 \<Longrightarrow> Ts = [Ts ! 0, Ts ! 1]"
  by (cases Ts; cases "tl Ts") auto

lemma Venn2_unfold:
  assumes "length Ts = 2" and "3 \<le> length cmb"
  shows "Venn2 LOW HGH Ts cmb m =
     (case Venn2_loop LOW HGH (kbyte (Ts ! 0)) (Venn2_start Ts cmb m) of
        None \<Rightarrow> None
      | Some s1 \<Rightarrow> Venn2_drain LOW HGH s1)"
proof -
  from list2 [OF assms(1)] obtain A B where "Ts = [A, B]" by metis
  with assms(2) show ?thesis
    by (simp add: Venn2_def Venn2_start_def First_Kmer_Entry_rewind Let_def)
qed

lemma venn2_targets_cong:
  "venn2_targets LOW HGH [cmb ! 0, cmb ! Suc 0, cmb ! 2] As Bs = venn2_targets LOW HGH cmb As Bs"
  by (simp add: venn2_targets_def)

lemma Venn2_total:
  assumes len: "length Ts = 2" "3 \<le> length cmb"
    and wf: "\<forall>S \<in> set Ts. well_formed (kbyte (Ts ! 0)) S \<and> increasing S"
  shows "\<exists>s1 s. Venn2_loop LOW HGH (kbyte (Ts ! 0)) (Venn2_start Ts cmb m) = Some s1
      \<and> Venn2_drain LOW HGH s1 = Some s
      \<and> Venn2 LOW HGH Ts cmb m = Some s
      \<and> curT s1 < 2
      \<and> (\<forall>c<2. table (Tv s1 ! c) = table (Ts ! c) \<and> cidx (Tv s1 ! c) \<le> length (table (Ts ! c)))
      \<and> cidx (Tv s1 ! (1 - curT s1)) = length (table (Ts ! (1 - curT s1)))
      \<and> Tv s = (Tv s1)[curT s1 := (Tv s1 ! curT s1)\<lparr>cidx := length (table (Ts ! curT s1))\<rparr>]
      \<and> iptr s = None
      \<and> (\<forall>c<2. table (Tv s ! c) = table (Ts ! c) \<and> cidx (Tv s ! c) = length (table (Ts ! c)))
      \<and> (\<forall>x. mem s x = m x + of_nat (count_list
               (venn2_targets LOW HGH cmb (table (Ts ! 0)) (table (Ts ! 1))) x))"
proof -
  let ?kb = "kbyte (Ts ! 0)"
  let ?s0 = "Venn2_start Ts cmb m"
  from len(1) wf have wf': "well_formed ?kb (Ts ! 0)" "well_formed ?kb (Ts ! 1)"
    "increasing (Ts ! 0)" "increasing (Ts ! 1)"
    by simp_all
  have inv0: "venn2_inv ?kb ?s0"
    using wf' by (intro venn2_invI) (simp_all add: Venn2_start_def)
  from Venn2_loop_total [OF inv0] obtain s1 where
    l: "Venn2_loop LOW HGH ?kb ?s0 = Some s1"
    and p: "length (Tv s1) = 2" "curT s1 < 2" "drain_inv s1"
    and t: "\<forall>c<2. table (Tv s1 ! c) = table (Tv ?s0 ! c)
              \<and> cidx (Tv ?s0 ! c) \<le> cidx (Tv s1 ! c)
              \<and> cidx (Tv s1 ! c) \<le> length (table (Tv ?s0 ! c))"
    and o: "cidx (Tv s1 ! (1 - curT s1)) = length (table (Tv ?s0 ! (1 - curT s1)))"
    and m1: "\<forall>x. mem s1 x + of_nat (count_list (map (\<lambda>e. AminB s1 + clamp LOW HGH (COUNT_OF e))
                                                  (rest (Tv s1 ! curT s1))) x)
               = mem ?s0 x + of_nat (count_list (venn2_targets LOW HGH [AminB ?s0, BminA ?s0, Inter_hist ?s0]
                                                  (rest (Tv ?s0 ! 0)) (rest (Tv ?s0 ! 1))) x)"
    by blast
  from Venn2_drain_total [OF p(3)] obtain s where
    d: "Venn2_drain LOW HGH s1 = Some s" and n: "iptr s = None"
    and tv: "Tv s = (Tv s1)[curT s1 := (Tv s1 ! curT s1)\<lparr>cidx := length (table (Tv s1 ! curT s1))\<rparr>]"
    and m2: "\<forall>x. mem s x = mem s1 x
                + of_nat (count_list (map (\<lambda>e. AminB s1 + clamp LOW HGH (COUNT_OF e))
                                          (rest (Tv s1 ! curT s1))) x)"
    by blast
  have tab0: "table (Tv ?s0 ! c) = table (Ts ! c)" if "c < 2" for c
    using that by (auto simp: Venn2_start_def less_Suc_eq numeral_2_eq_2)
  have r0: "rest (Tv ?s0 ! 0) = table (Ts ! 0)" "rest (Tv ?s0 ! 1) = table (Ts ! 1)"
    by (simp_all add: Venn2_start_def rest_def)
  have t1: "\<forall>c<2. table (Tv s1 ! c) = table (Ts ! c) \<and> cidx (Tv s1 ! c) \<le> length (table (Ts ! c))"
    using t tab0 by simp
  have o1: "cidx (Tv s1 ! (1 - curT s1)) = length (table (Ts ! (1 - curT s1)))"
    using o tab0 [of "1 - curT s1"] by simp
  have tv1: "Tv s = (Tv s1)[curT s1 := (Tv s1 ! curT s1)\<lparr>cidx := length (table (Ts ! curT s1))\<rparr>]"
    using tv t1 p(2) by simp
  have fin: "\<forall>c<2. table (Tv s ! c) = table (Ts ! c) \<and> cidx (Tv s ! c) = length (table (Ts ! c))"
  proof (intro allI impI)
    fix c :: nat assume c: "c < 2"
    show "table (Tv s ! c) = table (Ts ! c) \<and> cidx (Tv s ! c) = length (table (Ts ! c))"
    proof (cases "c = curT s1")
      case True
      with tv1 p(1,2) t1 show ?thesis by simp
    next
      case False
      with c p(2) have "c = 1 - curT s1" by auto
      with tv1 False o1 t1 c show ?thesis by simp
    qed
  qed
  have mm: "\<forall>x. mem s x = m x + of_nat (count_list
               (venn2_targets LOW HGH cmb (table (Ts ! 0)) (table (Ts ! 1))) x)"
    using m1 m2 r0 by (simp add: Venn2_start_def venn2_targets_cong)
  have v: "Venn2 LOW HGH Ts cmb m = Some s"
    using Venn2_unfold [OF len, of LOW HGH m] l d by simp
  from l d v p(2) t1 o1 tv1 n fin mm show ?thesis by blast
qed

section \<open>Keys of both tables\<close>

lemma example_targets:
  "venn2_targets 1 10 [- 1, 9, 19] (table tabA) (table tabB) = [4, 11, 22]"
  by code_simp

lemma Venn2_body_equal:
  assumes inv: "venn2_inv kb s" and ip: "iptr s = Some e" and jp: "jptr s = Some e'"
    and eq: "fst e = fst e'"
  shows "Venn2_body LOW HGH kb s =
     Some (s\<lparr>Tv := (Tv s)[0 := step (Tv s ! 0), 1 := step (Tv s ! 1)],
             iptr := current (step (Tv s ! 0)), jptr := current (step (Tv s ! 1)),
             mem := (mem s)(Inter_hist s + clamp LOW HGH (min (COUNT_OF e) (COUNT_OF e')) :=
               mem s (Inter_hist s + clamp LOW HGH (min (COUNT_OF e) (COUNT_OF e'))) + 1)\<rparr>)"
proof -
  have "Venn2_select kb s = Some (Inter_hist s, min (COUNT_OF e) (COUNT_OF e'),
              s\<lparr>Tv := (Tv s)[0 := step (Tv s ! 0), 1 := step (Tv s ! 1)],
                iptr := current (step (Tv s ! 0)), jptr := current (step (Tv s ! 1))\<rparr>)"
    using Venn2_select_cases [OF inv ip jp] eq by simp
  from Venn2_body_update [OF this, of LOW HGH] show ?thesis by simp
qed

lemma inter_targets_mem:
  assumes "e \<in> set As" and "e' \<in> set Bs" and "fst e = fst e'"
  shows "h + clamp LOW HGH (min (COUNT_OF e) (COUNT_OF e')) \<in> set (inter_targets LOW HGH h As Bs)"
proof -
  let ?g = "\<lambda>e'. h + clamp LOW HGH (min (COUNT_OF e) (COUNT_OF e'))"
  from assms(2,3) have "e' \<in> set (filter (\<lambda>e'. fst e' = fst e) Bs)" by simp
  then have m: "?g e' \<in> set (map ?g (filter (\<lambda>e'. fst e' = fst e) Bs))"
    unfolding set_map by (rule imageI)
  from assms(1) obtain As1 As2 where "As = As1 @ e # As2"
    by (meson split_list)
  then have "inter_targets LOW HGH h As Bs =
      inter_targets LOW HGH h As1 Bs @ map ?g (filter (\<lambda>e'. fst e' = fst e) Bs)
        @ inter_targets LOW HGH h As2 Bs"
    by (simp add: inter_targets_def)
  with m show ?thesis by simp
qed

text \<open>
  Claim C3. For two well-formed, strictly increasing tables and a window \<open>LOW \<le> HGH\<close>,
  \<^verbatim>\<open>Venn2\<close> returns, and each cell of the counter memory has grown by the number of times
  it occurs in \<open>venn2_targets\<close>: once, in the intersection histogram, for every key of
  both tables, in the bin that is the clamp \<open>max LOW (min HGH c)\<close> of the minimum \<open>c\<close>
  of its two counts (second part: this cell is among the targets for every pair of entries
  with the same key), and once in the histogram of its table for a key of one table. Third
  part: a pass of the compare loop that finds the two cursors at entries with the same key
  adds one to that bin of the intersection histogram and to no other cell, and moves both
  cursors to their next entries.
\<close>

theorem Venn2_intersection_min:
  assumes "length Ts = 2" and "3 \<le> length cmb" and "LOW \<le> HGH"
    and "\<forall>S \<in> set Ts. well_formed (kbyte (Ts ! 0)) S \<and> increasing S"
  shows "(\<exists>s. Venn2 LOW HGH Ts cmb m = Some s
            \<and> (\<forall>x. mem s x = m x + of_nat (count_list
                  (venn2_targets LOW HGH cmb (table (Ts ! 0)) (table (Ts ! 1))) x)))
       \<and> (\<forall>e \<in> set (table (Ts ! 0)). \<forall>e' \<in> set (table (Ts ! 1)). fst e = fst e' \<longrightarrow>
             cmb ! 2 + max LOW (min HGH (min (COUNT_OF e) (COUNT_OF e')))
               \<in> set (venn2_targets LOW HGH cmb (table (Ts ! 0)) (table (Ts ! 1))))
       \<and> (\<forall>kb s e e'. venn2_inv kb s \<and> iptr s = Some e \<and> jptr s = Some e' \<and> fst e = fst e' \<longrightarrow>
             Venn2_body LOW HGH kb s =
               Some (s\<lparr>Tv := (Tv s)[0 := step (Tv s ! 0), 1 := step (Tv s ! 1)],
                       iptr := current (step (Tv s ! 0)), jptr := current (step (Tv s ! 1)),
                       mem := (mem s)
                         (Inter_hist s + max LOW (min HGH (min (COUNT_OF e) (COUNT_OF e'))) :=
                            mem s (Inter_hist s + max LOW (min HGH (min (COUNT_OF e) (COUNT_OF e')))) + 1)\<rparr>))"
proof (intro conjI)
  from Venn2_total [OF assms(1,2,4), of LOW HGH m]
  show "\<exists>s. Venn2 LOW HGH Ts cmb m = Some s
            \<and> (\<forall>x. mem s x = m x + of_nat (count_list
                  (venn2_targets LOW HGH cmb (table (Ts ! 0)) (table (Ts ! 1))) x))"
    by blast
  show "\<forall>e \<in> set (table (Ts ! 0)). \<forall>e' \<in> set (table (Ts ! 1)). fst e = fst e' \<longrightarrow>
             cmb ! 2 + max LOW (min HGH (min (COUNT_OF e) (COUNT_OF e')))
               \<in> set (venn2_targets LOW HGH cmb (table (Ts ! 0)) (table (Ts ! 1)))"
  proof (intro ballI impI)
    fix e e' assume "e \<in> set (table (Ts ! 0))" "e' \<in> set (table (Ts ! 1))" "fst e = fst e'"
    from inter_targets_mem [OF this, of "cmb ! 2" LOW HGH]
    show "cmb ! 2 + max LOW (min HGH (min (COUNT_OF e) (COUNT_OF e')))
               \<in> set (venn2_targets LOW HGH cmb (table (Ts ! 0)) (table (Ts ! 1)))"
      by (simp add: venn2_targets_def clamp_max_min [OF assms(3)])
  qed
  show "\<forall>kb s e e'. venn2_inv kb s \<and> iptr s = Some e \<and> jptr s = Some e' \<and> fst e = fst e' \<longrightarrow>
             Venn2_body LOW HGH kb s =
               Some (s\<lparr>Tv := (Tv s)[0 := step (Tv s ! 0), 1 := step (Tv s ! 1)],
                       iptr := current (step (Tv s ! 0)), jptr := current (step (Tv s ! 1)),
                       mem := (mem s)
                         (Inter_hist s + max LOW (min HGH (min (COUNT_OF e) (COUNT_OF e'))) :=
                            mem s (Inter_hist s + max LOW (min HGH (min (COUNT_OF e) (COUNT_OF e')))) + 1)\<rparr>)"
  proof (intro allI impI, elim conjE)
    fix kb s e e'
    assume "venn2_inv kb s" "iptr s = Some e" "jptr s = Some e'" "fst e = fst e'"
    from Venn2_body_equal [OF this, of LOW HGH]
    show "Venn2_body LOW HGH kb s =
               Some (s\<lparr>Tv := (Tv s)[0 := step (Tv s ! 0), 1 := step (Tv s ! 1)],
                       iptr := current (step (Tv s ! 0)), jptr := current (step (Tv s ! 1)),
                       mem := (mem s)
                         (Inter_hist s + max LOW (min HGH (min (COUNT_OF e) (COUNT_OF e'))) :=
                            mem s (Inter_hist s + max LOW (min HGH (min (COUNT_OF e) (COUNT_OF e')))) + 1)\<rparr>)"
      by (simp only: clamp_max_min [OF assms(3)])
  qed
qed

theorem Venn2_intersection_min_witness:
  "\<exists>s. Venn2 1 10 [tabA, tabB] [- 1, 9, 19] (\<lambda>_. 0) = Some s
      \<and> mem s 22 = 1 \<and> mem s 4 = 1 \<and> mem s 11 = 1 \<and> mem s 19 = 0"
proof -
  have k: "kbyte ([tabA, tabB] ! 0) = 1" by (simp add: tabA_def)
  have h: "\<forall>S \<in> set [tabA, tabB]. well_formed (kbyte ([tabA, tabB] ! 0)) S \<and> increasing S"
    unfolding k using example_tables_ok by simp
  have "length [tabA, tabB] = 2" "3 \<le> length [- 1, 9, 19 :: int]" "(1::int) \<le> 10"
    by simp_all
  from Venn2_intersection_min [OF this h, of "\<lambda>_. 0"] obtain s where
    s: "Venn2 1 10 [tabA, tabB] [- 1, 9, 19] (\<lambda>_. 0) = Some s"
    and m: "\<forall>x. mem s x = 0 + of_nat (count_list
                  (venn2_targets 1 10 [- 1, 9, 19] (table ([tabA, tabB] ! 0)) (table ([tabA, tabB] ! 1))) x)"
    by blast
  from m have "\<forall>x. mem s x = of_nat (count_list [4, 11, 22] x)"
    using example_targets by simp
  then have "mem s 22 = 1 \<and> mem s 4 = 1 \<and> mem s 11 = 1 \<and> mem s 19 = 0"
    by simp
  with s show ?thesis by blast
qed

section \<open>The histogram update\<close>

lemma clamp_cases:
  assumes "LOW \<le> HGH"
  shows "c \<le> LOW \<longrightarrow> clamp LOW HGH c = LOW" "HGH \<le> c \<longrightarrow> clamp LOW HGH c = HGH"
    "LOW < c \<and> c < HGH \<longrightarrow> clamp LOW HGH c = c"
  using assms by (auto simp: clamp_def)

lemma payload_header: "take 3 (payload k LOW HGH m h) = [Int32 k, Int32 LOW, Int32 HGH]"
  by (simp add: payload_def)

lemma write_files_header:
  "write_files k LOW HGH upp low nway cells cmb m is = (fs, fin) \<Longrightarrow> (n, p) \<in> set fs \<Longrightarrow>
   take 3 p = [Int32 k, Int32 LOW, Int32 HGH]"
proof (induction "is" arbitrary: fs fin)
  case Nil
  then show ?case by simp
next
  case (Cons i "is")
  show ?case
  proof (cases "list_all (in_block cells) (hist_cells LOW HGH (cmb ! (i - 1)))")
    case False
    with Cons.prems show ?thesis by auto
  next
    case True
    obtain fs' fin' where w: "write_files k LOW HGH upp low nway cells cmb m is = (fs', fin')"
      by (cases "write_files k LOW HGH upp low nway cells cmb m is") auto
    with True Cons.prems(1) have
      "fs = (hist_name (int i) upp low nway, payload k LOW HGH m (cmb ! (i - 1))) # fs'"
      by simp
    with Cons.prems(2) consider "p = payload k LOW HGH m (cmb ! (i - 1))" | "(n, p) \<in> set fs'"
      by auto
    then show ?thesis
    proof cases
      case 1
      then show ?thesis by (simp add: payload_header)
    next
      case 2
      from Cons.IH [OF w this] show ?thesis .
    qed
  qed
qed

lemma main_default_window:
  assumes "operands argv = argv"
    and "main AF Open_KS m0 argv = Exit0 fs \<or> main AF Open_KS m0 argv = Fault fs"
    and "(n, p) \<in> set fs"
  shows "\<exists>k. take 3 p = [Int32 k, Int32 1, Int32 100]"
proof -
  have pa: "parse_args AF argv (1, 100) [] = Inr (1, 100, argv)"
    using parse_args_no_options [OF assms(1), of AF "(1, 100)" "[]"] by simp
  from assms(2,3) obtain k upp low nway cells cmb m "is" fin where
    "write_files k 1 100 upp low nway cells cmb m is = (fs, fin)"
    unfolding main_def pa
    by (auto simp: Let_def split: if_splits option.splits sum.splits prod.splits)
  from write_files_header [OF this assms(3)] show ?thesis by blast
qed

lemma example_start_inv: "venn2_inv 1 (Venn2_start [tabA, tabB] cmb m)"
  using example_tables_ok by (intro venn2_invI) (simp_all add: Venn2_start_def)

lemma example_start_ptrs:
  "iptr (Venn2_start [tabA, tabB] cmb m) = Some ([1], 5)"
  "jptr (Venn2_start [tabA, tabB] cmb m) = Some ([2], 7)"
  by (simp_all add: Venn2_start_def rewind_def current_def tabA_def tabB_def)

lemma example_main_runs:
  "case main (\<lambda>_. None) files (\<lambda>_. 0) [''a'', ''e''] of
     Fault fs \<Rightarrow> map fst fs = [''A_E.hist'', ''a_e.hist''] | _ \<Rightarrow> False"
  by code_simp

text \<open>
  Claim C4. For a window \<open>1 \<le> LOW \<le> HGH\<close>, a pass of the compare loop that selected
  the histogram \<open>h\<close> and the count \<open>c\<close> (lines 77-96) changes the counter memory in
  exactly one cell, \<open>h + bin\<close>, which grows by one, where \<open>bin\<close> is \<open>LOW\<close> for
  \<open>c \<le> LOW\<close>, \<open>HGH\<close> for \<open>c \<ge> HGH\<close>, and \<open>c\<close> for \<open>LOW < c < HGH\<close>; a pass of the
  drain loop does the same with the histogram \<^verbatim>\<open>AminB\<close> and the count of the entry under the
  cursor; and a run without options uses the window \<open>[1, 100]\<close>: every file it writes,
  up to its \<^verbatim>\<open>exit (0)\<close> or up to a step that C does not define, carries the bounds 1 and
  100 after the k-mer length.
\<close>

theorem histogram_update_clamps:
  assumes "1 \<le> LOW" and "LOW \<le> HGH"
  shows "(\<forall>kb s h c s1. Venn2_select kb s = Some (h, c, s1) \<longrightarrow>
            (\<exists>bin. Venn2_body LOW HGH kb s =
                      Some (s1\<lparr>mem := (mem s1)(h + bin := mem s1 (h + bin) + 1)\<rparr>)
                \<and> (c \<le> LOW \<longrightarrow> bin = LOW) \<and> (HGH \<le> c \<longrightarrow> bin = HGH)
                \<and> (LOW < c \<and> c < HGH \<longrightarrow> bin = c)))
       \<and> (\<forall>s e. iptr s = Some e \<and> curT s < length (Tv s) \<and> iptr s = current (Tv s ! curT s) \<longrightarrow>
            (\<exists>bin. drain_body LOW HGH s =
                      Some (s\<lparr>Tv := (Tv s)[curT s := step (Tv s ! curT s)],
                              iptr := current (step (Tv s ! curT s)),
                              mem := (mem s)(AminB s + bin := mem s (AminB s + bin) + 1)\<rparr>)
                \<and> (COUNT_OF e \<le> LOW \<longrightarrow> bin = LOW) \<and> (HGH \<le> COUNT_OF e \<longrightarrow> bin = HGH)
                \<and> (LOW < COUNT_OF e \<and> COUNT_OF e < HGH \<longrightarrow> bin = COUNT_OF e)))
       \<and> (\<forall>AF Open_KS m0 argv fs n p.
             operands argv = argv
             \<and> (main AF Open_KS m0 argv = Exit0 fs \<or> main AF Open_KS m0 argv = Fault fs)
             \<and> (n, p) \<in> set fs \<longrightarrow>
             (\<exists>k. take 3 p = [Int32 k, Int32 1, Int32 100]))"
proof (intro conjI allI impI)
  fix kb s h c s1
  assume "Venn2_select kb s = Some (h, c, s1)"
  from Venn2_body_update [OF this, of LOW HGH] clamp_cases [OF assms(2), of c]
  show "\<exists>bin. Venn2_body LOW HGH kb s =
                      Some (s1\<lparr>mem := (mem s1)(h + bin := mem s1 (h + bin) + 1)\<rparr>)
                \<and> (c \<le> LOW \<longrightarrow> bin = LOW) \<and> (HGH \<le> c \<longrightarrow> bin = HGH)
                \<and> (LOW < c \<and> c < HGH \<longrightarrow> bin = c)"
    by (intro exI [of _ "clamp LOW HGH c"]) simp
next
  fix s :: venn2_vars and e
  assume "iptr s = Some e \<and> curT s < length (Tv s) \<and> iptr s = current (Tv s ! curT s)"
  then have a: "iptr s = Some e" "curT s < length (Tv s)" "iptr s = current (Tv s ! curT s)"
    by blast+
  from drain_body_update [OF a, of LOW HGH] clamp_cases [OF assms(2), of "COUNT_OF e"]
  show "\<exists>bin. drain_body LOW HGH s =
                      Some (s\<lparr>Tv := (Tv s)[curT s := step (Tv s ! curT s)],
                              iptr := current (step (Tv s ! curT s)),
                              mem := (mem s)(AminB s + bin := mem s (AminB s + bin) + 1)\<rparr>)
                \<and> (COUNT_OF e \<le> LOW \<longrightarrow> bin = LOW) \<and> (HGH \<le> COUNT_OF e \<longrightarrow> bin = HGH)
                \<and> (LOW < COUNT_OF e \<and> COUNT_OF e < HGH \<longrightarrow> bin = COUNT_OF e)"
    by (intro exI [of _ "clamp LOW HGH (COUNT_OF e)"]) simp
next
  fix AF Open_KS m0 argv fs n p
  assume "operands argv = argv
             \<and> (main AF Open_KS m0 argv = Exit0 fs \<or> main AF Open_KS m0 argv = Fault fs)
             \<and> (n, p) \<in> set fs"
  then show "\<exists>k. take 3 p = [Int32 k, Int32 1, Int32 100]"
    using main_default_window by blast
qed

theorem histogram_update_clamps_witness:
  "(\<exists>s'. Venn2_body 1 100 1 (Venn2_start [tabA, tabB] [- 1, 99, 199] (\<lambda>_. 0)) = Some s'
         \<and> mem s' 4 = 1)
   \<and> (\<exists>s'. drain_body 1 100 (Venn2_start [tabA, tabB] [- 1, 99, 199] (\<lambda>_. 0)) = Some s'
         \<and> mem s' 4 = 1)
   \<and> (\<exists>fs k. main (\<lambda>_. None) files (\<lambda>_. 0) [''a'', ''e''] = Fault fs
         \<and> map fst fs = [''A_E.hist'', ''a_e.hist'']
         \<and> take 3 (snd (hd fs)) = [Int32 k, Int32 1, Int32 100])"
proof -
  let ?s = "Venn2_start [tabA, tabB] [- 1, 99, 199] (\<lambda>_. 0)"
  note hc = histogram_update_clamps [of 1 100, simplified]
  have c: "COUNT_OF ([1], 5) = 5" by (simp add: COUNT_OF_def)
  have sel: "Venn2_select 1 ?s = Some (AminB ?s, COUNT_OF ([1], 5),
      ?s\<lparr>Tv := (Tv ?s)[0 := step (Tv ?s ! 0)], iptr := current (step (Tv ?s ! 0))\<rparr>)"
    using Venn2_select_cases [OF example_start_inv example_start_ptrs, of "[- 1, 99, 199]" "\<lambda>_. 0"]
    by simp
  from hc [THEN conjunct1, rule_format, OF sel]
  have 1: "\<exists>s'. Venn2_body 1 100 1 ?s = Some s' \<and> mem s' 4 = 1"
    unfolding c by (auto simp: Venn2_start_def)
  have d: "iptr ?s = Some ([1], 5) \<and> curT ?s < length (Tv ?s) \<and> iptr ?s = current (Tv ?s ! curT ?s)"
    using example_start_ptrs(1) [of "[- 1, 99, 199]" "\<lambda>_. 0"]
      venn2_inv_facts(1,2,4) [OF example_start_inv, of "[- 1, 99, 199]" "\<lambda>_. 0"] by simp
  from hc [THEN conjunct2, THEN conjunct1, rule_format, OF d]
  have 2: "\<exists>s'. drain_body 1 100 ?s = Some s' \<and> mem s' 4 = 1"
    unfolding c by (auto simp: Venn2_start_def)
  from example_main_runs obtain fs where
    fs: "main (\<lambda>_. None) files (\<lambda>_. 0) [''a'', ''e''] = Fault fs" "map fst fs = [''A_E.hist'', ''a_e.hist'']"
    by (auto split: outcome.splits)
  then have "fs \<noteq> []" by auto
  then have "(fst (hd fs), snd (hd fs)) \<in> set fs" by simp
  moreover have "operands [''a'', ''e''] = [''a'', ''e'']"
    by (simp add: operands_def)
  ultimately have "\<exists>k. take 3 (snd (hd fs)) = [Int32 k, Int32 1, Int32 100]"
    using hc [THEN conjunct2, THEN conjunct2, rule_format,
        of "[''a'', ''e'']" "\<lambda>_. None" files "\<lambda>_. 0" fs "fst (hd fs)" "snd (hd fs)"] fs(1)
    by blast
  then obtain k where "take 3 (snd (hd fs)) = [Int32 k, Int32 1, Int32 100]" ..
  with fs have "main (\<lambda>_. None) files (\<lambda>_. 0) [''a'', ''e''] = Fault fs
         \<and> map fst fs = [''A_E.hist'', ''a_e.hist'']
         \<and> take 3 (snd (hd fs)) = [Int32 k, Int32 1, Int32 100]"
    by simp
  then have 3: "\<exists>fs k. main (\<lambda>_. None) files (\<lambda>_. 0) [''a'', ''e''] = Fault fs
         \<and> map fst fs = [''A_E.hist'', ''a_e.hist'']
         \<and> take 3 (snd (hd fs)) = [Int32 k, Int32 1, Int32 100]"
    by (intro exI [of _ fs] exI [of _ k])
  from 1 2 3 show ?thesis by blast
qed

section \<open>Termination and the cursors\<close>















end
